theory Spec2Isabelle
  imports Main "HOL-Library.Word" "HOL-Library.Product_Lexorder" "HOL-Library.AList"
begin

section \<open>Bytes, errors and fixed-width packing\<close>

text \<open>
  The binary graph file and every encoded buffer is a list of bytes. Python integers are
  unbounded; node ids, counts and file positions are never negative in WikiGraph.py, so they
  are natural numbers. Every exception of the source is a value of \<open>error\<close>.
\<close>

type_synonym byte = "8 word"

datatype error =
    MmapEmptyFile        \<comment> \<open>ValueError of mmap.mmap on a file of length 0\<close>
  | InvalidFileFormat    \<comment> \<open>ValueError("Invalid file format")\<close>
  | IndexEmpty           \<comment> \<open>ValueError("Index is empty - no blocks found")\<close>
  | StructError          \<comment> \<open>struct.error: value out of range, or buffer of the wrong size\<close>
  | ZlibError            \<comment> \<open>zlib.error of zlib.decompress\<close>
  | MalformedVarint      \<comment> \<open>the varint decoder ran out of input or over its length limit\<close>
  | UnicodeEncodeError   \<comment> \<open>the UTF-8 encoder of the sidecar met a code point it cannot encode\<close>

text \<open>Little-endian bytes of a number, as struct.pack writes them for '<I' and '<Q'.\<close>

fun le_bytes :: "nat \<Rightarrow> nat \<Rightarrow> byte list" where
  "le_bytes 0 n = []"
| "le_bytes (Suc k) n = of_nat (n mod 256) # le_bytes k (n div 256)"

fun le_value :: "byte list \<Rightarrow> nat" where
  "le_value [] = 0"
| "le_value (b # bs) = unat b + 256 * le_value bs"

definition pack_I :: "nat \<Rightarrow> error + byte list" where
  "pack_I n = (if n < 2 ^ 32 then Inr (le_bytes 4 n) else Inl StructError)"

definition pack_Q :: "nat \<Rightarrow> error + byte list" where
  "pack_Q n = (if n < 2 ^ 64 then Inr (le_bytes 8 n) else Inl StructError)"

definition pack_II :: "nat \<Rightarrow> nat \<Rightarrow> error + byte list" where
  "pack_II a b =
     (case pack_I a of Inl e \<Rightarrow> Inl e
      | Inr x \<Rightarrow> (case pack_I b of Inl e \<Rightarrow> Inl e | Inr y \<Rightarrow> Inr (x @ y)))"

definition pack_QQ :: "nat \<Rightarrow> nat \<Rightarrow> error + byte list" where
  "pack_QQ a b =
     (case pack_Q a of Inl e \<Rightarrow> Inl e
      | Inr x \<Rightarrow> (case pack_Q b of Inl e \<Rightarrow> Inl e | Inr y \<Rightarrow> Inr (x @ y)))"

definition unpack_I :: "byte list \<Rightarrow> error + nat" where
  "unpack_I bs = (if length bs = 4 then Inr (le_value bs) else Inl StructError)"

definition unpack_Q :: "byte list \<Rightarrow> error + nat" where
  "unpack_Q bs = (if length bs = 8 then Inr (le_value bs) else Inl StructError)"

definition unpack_II :: "byte list \<Rightarrow> error + (nat \<times> nat)" where
  "unpack_II bs =
     (if length bs = 8 then Inr (le_value (take 4 bs), le_value (drop 4 bs))
      else Inl StructError)"

definition unpack_QQ :: "byte list \<Rightarrow> error + (nat \<times> nat)" where
  "unpack_QQ bs =
     (if length bs = 16 then Inr (le_value (take 8 bs), le_value (drop 8 bs))
      else Inl StructError)"

text \<open>A Python slice \<open>buf[a:b]\<close> with \<open>0 \<le> a\<close>: clipped to the buffer, never an error.\<close>

definition slice :: "'a list \<Rightarrow> nat \<Rightarrow> nat \<Rightarrow> 'a list" where
  "slice buf a b = take (b - a) (drop a buf)"

section \<open>The varint package\<close>

text \<open>
  Modelled from the spec: the \<open>varint\<close> package (\<open>varint.encode\<close>,
  \<open>varint.decode_bytes\<close>) is imported by WikiGraph.py and is not part of the repository.
  It is modelled after section 4.1: unsigned LEB128, seven payload bits per byte, least
  significant group first, the high bit set on every byte but the last; the encoding of 0 is
  the single byte 0; the decoder fails when the input ends before the terminating byte or
  when more than 10 bytes would be required.
\<close>

function varint_encode :: "nat \<Rightarrow> byte list" where
  "varint_encode n =
     (if n div 128 \<noteq> 0 then of_nat (n mod 128 + 128) # varint_encode (n div 128)
      else [of_nat (n mod 128)])"
  by pat_completeness auto
termination
  by (relation "measure id") auto

declare varint_encode.simps [simp del]

text \<open>\<open>varint_decode k shift result buf\<close>: \<open>k\<close> bytes have been read already.\<close>

fun varint_decode :: "nat \<Rightarrow> nat \<Rightarrow> nat \<Rightarrow> byte list \<Rightarrow> error + nat" where
  "varint_decode k shift result [] = Inl MalformedVarint"
| "varint_decode k shift result (b # bs) =
     (if 10 \<le> k then Inl MalformedVarint
      else let result' = result + (unat b mod 128) * 2 ^ shift
           in if unat b < 128 then Inr result'
              else varint_decode (Suc k) (shift + 7) result' bs)"

definition varint_decode_bytes :: "byte list \<Rightarrow> error + nat" where
  "varint_decode_bytes buf = varint_decode 0 0 0 buf"

section \<open>Edge-list codec of the writer\<close>

text \<open>
  \<open>WikiLinkWriter.encode_edges\<close>: the count of the list as given, then the deltas of the
  sorted list from \<open>prev = 0\<close>. The list is sorted and not de-duplicated. In the loop
  \<open>edge - prev\<close> is never negative, the list being sorted and ids being non-negative.
\<close>

fun encode_deltas :: "byte list \<Rightarrow> nat \<Rightarrow> nat list \<Rightarrow> byte list" where
  "encode_deltas encoded prev [] = encoded"
| "encode_deltas encoded prev (edge # rest) =
     encode_deltas (encoded @ varint_encode (edge - prev)) edge rest"

definition encode_edges :: "nat list \<Rightarrow> byte list" where
  "encode_edges edges = encode_deltas (varint_encode (length edges)) 0 (sort edges)"

text \<open>
  The decoding loop, written twice in the source (\<open>verify_encoding\<close> and
  \<open>WikiLinkReader.get_neighbors\<close>): each round decodes one varint at \<open>data[pos:]\<close>, moves
  \<open>pos\<close> on by the length of the re-encoding of the value read, and appends the running sum.
\<close>

fun decode_deltas :: "nat \<Rightarrow> byte list \<Rightarrow> nat \<Rightarrow> nat \<Rightarrow> nat list \<Rightarrow> error + nat list" where
  "decode_deltas 0 data pos prev edges = Inr edges"
| "decode_deltas (Suc n) data pos prev edges =
     (case varint_decode_bytes (drop pos data) of
        Inl e \<Rightarrow> Inl e
      | Inr delta \<Rightarrow>
          decode_deltas n data (pos + length (varint_encode delta)) (prev + delta)
            (edges @ [prev + delta]))"

text \<open>\<open>WikiLinkWriter.verify_encoding\<close>; the decoded list is returned with the verdict.\<close>

definition verify_decode :: "byte list \<Rightarrow> error + nat list" where
  "verify_decode encoded_data =
     (case varint_decode_bytes (drop 0 encoded_data) of
        Inl e \<Rightarrow> Inl e
      | Inr num_edges \<Rightarrow>
          decode_deltas num_edges encoded_data (0 + length (varint_encode num_edges)) 0 [])"

definition verify_encoding :: "nat list \<Rightarrow> byte list \<Rightarrow> error + bool" where
  "verify_encoding original_edges encoded_data =
     (case verify_decode encoded_data of
        Inl e \<Rightarrow> Inl e
      | Inr decoded_edges \<Rightarrow> Inr (sort original_edges = decoded_edges))"

section \<open>The zlib binding\<close>

text \<open>
  \<open>zlib.compress\<close> and \<open>zlib.decompress\<close> belong to the Python standard library, not to
  the repository. The writer and the reader take the pair as a parameter; what the proofs
  need of it is stated where it is needed (\<open>zlib_roundtrip\<close>).
\<close>

record zlib =
  compress :: "byte list \<Rightarrow> byte list"
  decompress :: "byte list \<Rightarrow> error + byte list"

definition zlib_roundtrip :: "zlib \<Rightarrow> bool" where
  "zlib_roundtrip z = (\<forall>x. decompress z (compress z x) = Inr x)"

text \<open>A codec that stores its input unchanged; it instantiates the parameter on concrete inputs.\<close>

definition zlib_stored :: zlib where
  "zlib_stored = \<lparr>compress = (\<lambda>x. x), decompress = (\<lambda>x. Inr x)\<rparr>"

section \<open>Text of the title-map sidecar\<close>

text \<open>
  A Python \<open>str\<close> is a sequence of Unicode code points: a title, a line and the text of the
  sidecar are lists of code points, which are natural numbers. The sidecar is opened in text
  mode with UTF-8 and is modelled at the level of the text written and read back: the reader
  decodes what the writer encoded. On a POSIX system text mode writes \<open>\n\<close> unchanged, and
  reading translates \<open>\r\n\<close> and \<open>\r\<close> to \<open>\n\<close> (universal newlines).
\<close>

type_synonym codepoint = nat
type_synonym str = "codepoint list"

text \<open>The \<open>str\<close> of a literal, character by character.\<close>

definition str_of :: "string \<Rightarrow> str" where
  "str_of s = map of_char s"

abbreviation (input) TAB :: codepoint where "TAB \<equiv> 0x09"
abbreviation (input) LF :: codepoint where "LF \<equiv> 0x0A"
abbreviation (input) CR :: codepoint where "CR \<equiv> 0x0D"

text \<open>
  What \<open>mapfile.write\<close> can encode: UTF-8 has every code point up to U+10FFFF but the
  surrogates U+D800 to U+DFFF, which \<open>json.loads\<close> yields for an unpaired \<open>\ud800\<close> escape.
  A \<open>str\<close> holds no code point above U+10FFFF.
\<close>

definition utf8_encodable :: "str \<Rightarrow> bool" where
  "utf8_encodable s = list_all (\<lambda>c. c < 0xD800 \<or> (0xDFFF < c \<and> c < 0x110000)) s"

definition digit_char :: "nat \<Rightarrow> codepoint" where
  "digit_char d = 48 + d"

text \<open>Python's \<open>str(n)\<close> (the f-string \<open>{self.current_node_id}\<close>) for \<open>n \<ge> 0\<close>.\<close>

function str_nat :: "nat \<Rightarrow> str" where
  "str_nat n = (if n < 10 then [digit_char n] else str_nat (n div 10) @ [digit_char (n mod 10)])"
  by pat_completeness auto
termination
  by (relation "measure id") auto

declare str_nat.simps [simp del]

text \<open>
  \<open>str.isspace\<close>, the characters \<open>str.strip()\<close> removes: the ASCII whitespace with the
  separators U+001C to U+001F, and U+0085, U+00A0, U+1680, U+2000 to U+200A, U+2028, U+2029,
  U+202F, U+205F and U+3000.
\<close>

definition is_space :: "codepoint \<Rightarrow> bool" where
  "is_space c =
     (c \<in> {0x09, 0x0A, 0x0B, 0x0C, 0x0D, 0x1C, 0x1D, 0x1E, 0x1F, 0x20, 0x85, 0xA0, 0x1680,
            0x2028, 0x2029, 0x202F, 0x205F, 0x3000}
      \<or> (0x2000 \<le> c \<and> c \<le> 0x200A))"

definition strip :: "str \<Rightarrow> str" where
  "strip s = rev (dropWhile is_space (rev (dropWhile is_space s)))"

text \<open>\<open>s.split('\t')\<close>; \<open>cur\<close> is the field being read.\<close>

fun split_tab :: "str \<Rightarrow> str \<Rightarrow> str list" where
  "split_tab cur [] = [cur]"
| "split_tab cur (c # cs) =
     (if c = TAB then cur # split_tab [] cs else split_tab (cur @ [c]) cs)"

text \<open>
  Iterating over a text file: the lines with their terminator, every terminator read as
  \<open>\n\<close>; a last line without terminator is yielded as it is.
\<close>

function py_lines :: "str \<Rightarrow> str \<Rightarrow> str list" where
  "py_lines cur [] = (if cur = [] then [] else [cur])"
| "py_lines cur (c # cs) =
     (if c = LF then (cur @ [LF]) # py_lines [] cs
      else if c = CR then
        (if cs \<noteq> [] \<and> hd cs = LF then (cur @ [LF]) # py_lines [] (tl cs)
         else (cur @ [LF]) # py_lines [] cs)
      else py_lines (cur @ [c]) cs)"
  by pat_completeness auto
termination
  by (relation "measure (\<lambda>(cur, s). length s)") auto

text \<open>
  Python's \<open>int(s)\<close> on a \<open>str\<close>, in two steps. First every character from U+007F on is
  replaced: a whitespace character by a space, a character with the Unicode property of a
  decimal digit by the ASCII digit of its value, and any other makes the ValueError. The
  decimal digits of Unicode 14 are 66 runs of ten code points; \<open>decimal_zeros\<close> are their
  zeros.
\<close>

definition decimal_zeros :: "codepoint list" where
  "decimal_zeros =
     [0x0030, 0x0660, 0x06F0, 0x07C0, 0x0966, 0x09E6, 0x0A66, 0x0AE6,
      0x0B66, 0x0BE6, 0x0C66, 0x0CE6, 0x0D66, 0x0DE6, 0x0E50, 0x0ED0,
      0x0F20, 0x1040, 0x1090, 0x17E0, 0x1810, 0x1946, 0x19D0, 0x1A80,
      0x1A90, 0x1B50, 0x1BB0, 0x1C40, 0x1C50, 0xA620, 0xA8D0, 0xA900,
      0xA9D0, 0xA9F0, 0xAA50, 0xABF0, 0xFF10, 0x104A0, 0x10D30, 0x11066,
      0x110F0, 0x11136, 0x111D0, 0x112F0, 0x11450, 0x114D0, 0x11650, 0x116C0,
      0x11730, 0x118E0, 0x11950, 0x11C50, 0x11D50, 0x11DA0, 0x16A60, 0x16AC0,
      0x16B50, 0x1D7CE, 0x1D7D8, 0x1D7E2, 0x1D7EC, 0x1D7F6, 0x1E140, 0x1E2F0,
      0x1E950, 0x1FBF0]"

definition decimal_digit :: "codepoint \<Rightarrow> nat option" where
  "decimal_digit c =
     (case filter (\<lambda>z. z \<le> c \<and> c < z + 10) decimal_zeros of
        [] \<Rightarrow> None
      | z # zs \<Rightarrow> Some (c - z))"

definition int_ascii :: "codepoint \<Rightarrow> codepoint option" where
  "int_ascii c =
     (if c < 0x7F then Some c
      else if is_space c then Some 0x20
      else case decimal_digit c of None \<Rightarrow> None | Some d \<Rightarrow> Some (48 + d))"

text \<open>
  Then the ASCII text is read: whitespace of C (\<open>\t\n\v\f\r\<close> and the space) is skipped at
  both ends, one sign is allowed, then decimal digits, single underscores allowed between
  digits, at most 4300 digits (the default limit of CPython 3.11). \<open>None\<close> is the ValueError.
\<close>

definition ascii_space :: "codepoint \<Rightarrow> bool" where
  "ascii_space c = (c \<in> {0x09, 0x0A, 0x0B, 0x0C, 0x0D, 0x20})"

definition is_digit :: "codepoint \<Rightarrow> bool" where
  "is_digit c = (48 \<le> c \<and> c \<le> 57)"

fun digits_value :: "nat \<Rightarrow> str \<Rightarrow> nat" where
  "digits_value acc [] = acc"
| "digits_value acc (c # cs) = digits_value (10 * acc + (c - 48)) cs"

fun underscores_ok :: "str \<Rightarrow> bool" where
  "underscores_ok [] = True"
| "underscores_ok [c] = True"
| "underscores_ok (c # d # cs) = (\<not> (c = 0x5F \<and> d = 0x5F) \<and> underscores_ok (d # cs))"

definition valid_digits :: "str \<Rightarrow> bool" where
  "valid_digits body =
     (body \<noteq> [] \<and> is_digit (hd body) \<and> is_digit (last body)
      \<and> list_all (\<lambda>c. is_digit c \<or> c = 0x5F) body \<and> underscores_ok body
      \<and> length (filter is_digit body) \<le> 4300)"

definition py_int :: "str \<Rightarrow> int option" where
  "py_int s =
     (case those (map int_ascii s) of
        None \<Rightarrow> None
      | Some a \<Rightarrow>
     (let t = rev (dropWhile ascii_space (rev (dropWhile ascii_space a)));
          neg = (t \<noteq> [] \<and> hd t = 0x2D);
          body = (if t \<noteq> [] \<and> (hd t = 0x2D \<or> hd t = 0x2B) then tl t else t)
      in if valid_digits body
         then Some ((if neg then -1 else 1) * int (digits_value 0 (filter is_digit body)))
         else None))"

section \<open>BiDict\<close>

text \<open>
  The keys of \<open>forward\<close> are the ints of the sidecar, those of \<open>backward\<close> the titles. A str
  key is never a key of \<open>forward\<close> and an int key never one of \<open>backward\<close>, so
  \<open>__getitem__\<close> on a title is the lookup in \<open>backward\<close> and on an int the lookup in
  \<open>forward\<close>; \<open>None\<close> is the KeyError, which \<open>get\<close> turns into its default \<open>None\<close>.
\<close>

record bidict =
  forward :: "int \<rightharpoonup> str"
  backward :: "str \<rightharpoonup> int"

definition bidict_empty :: bidict where
  "bidict_empty = \<lparr>forward = Map.empty, backward = Map.empty\<rparr>"

definition bidict_setitem :: "bidict \<Rightarrow> int \<Rightarrow> str \<Rightarrow> bidict" where
  "bidict_setitem b key val = \<lparr>forward = (forward b)(key \<mapsto> val), backward = (backward b)(val \<mapsto> key)\<rparr>"

definition bidict_get_int :: "bidict \<Rightarrow> int \<Rightarrow> str option" where
  "bidict_get_int b key = forward b key"

definition bidict_get_str :: "bidict \<Rightarrow> str \<Rightarrow> int option" where
  "bidict_get_str b key = backward b key"

section \<open>WikiLinkWriter\<close>

text \<open>
  The writer's fields. \<open>outfile\<close> holds the bytes written so far; until the final seek every
  write is at the end of the file, so \<open>tell()\<close> is its length. \<open>mapfile\<close> holds the text
  written to the sidecar. \<open>node_map\<close> is the dict in its insertion order, \<open>map_of\<close> its
  lookup.
\<close>

record writer =
  outfile :: "byte list"
  mapfile :: str
  node_map :: "(str \<times> nat) list"
  current_node_id :: nat
  index :: "(nat \<times> nat) list"

definition MAGIC :: "byte list" where
  "MAGIC = [0x57, 0x4C, 0x49, 0x4E, 0x4B, 0x4E, 0x45, 0x54]"

definition VERSION :: nat where
  "VERSION = 1"

definition writer_init :: writer where
  "writer_init = \<lparr>outfile = [], mapfile = [], node_map = [], current_node_id = 0, index = []\<rparr>"

definition write_header :: "writer \<Rightarrow> error + writer" where
  "write_header w =
     (case pack_II VERSION 0 of
        Inl e \<Rightarrow> Inl e
      | Inr hdr \<Rightarrow> Inr (w\<lparr>outfile := outfile w @ MAGIC @ hdr\<rparr>))"

text \<open>
  Lines 71 to 76 and 79 to 83: a title not yet in \<open>node_map\<close> gets the next id and its line
  in the sidecar; the value is \<open>self.node_map[title]\<close> after that, with the writer.
  \<open>mapfile.write\<close> raises when the line cannot be encoded.
\<close>

definition intern :: "str \<Rightarrow> writer \<Rightarrow> error + (nat \<times> writer)" where
  "intern title w =
     (case map_of (node_map w) title of
        Some i \<Rightarrow> Inr (i, w)
      | None \<Rightarrow>
          if utf8_encodable (str_nat (current_node_id w) @ [TAB] @ title @ [LF])
          then Inr (current_node_id w,
                 w\<lparr>node_map := node_map w @ [(title, current_node_id w)],
                   mapfile := mapfile w @ str_nat (current_node_id w) @ [TAB] @ title @ [LF],
                   current_node_id := current_node_id w + 1\<rparr>)
          else Inl UnicodeEncodeError)"

fun collect_edges :: "str list \<Rightarrow> nat list \<Rightarrow> writer \<Rightarrow> error + (nat list \<times> writer)" where
  "collect_edges [] edge_ids w = Inr (edge_ids, w)"
| "collect_edges (title # rest) edge_ids w =
     (case intern title w of
        Inl e \<Rightarrow> Inl e
      | Inr (i, w') \<Rightarrow> collect_edges rest (edge_ids @ [i]) w')"

text \<open>
  One item \<open>(node_title, linked_titles)\<close> of a parsed line. \<open>nodes_with_edges\<close> is a dict in
  insertion order: assigning to a key it holds keeps the key's place and replaces the value,
  which is \<open>AList.update\<close>.
\<close>

definition process_item ::
  "str \<times> str list \<Rightarrow> (nat \<times> nat list) list \<times> writer
     \<Rightarrow> error + ((nat \<times> nat list) list \<times> writer)" where
  "process_item item st =
     (case item of (node_title, linked_titles) \<Rightarrow>
      case st of (nodes_with_edges, w) \<Rightarrow>
      case intern node_title w of
        Inl e \<Rightarrow> Inl e
      | Inr (node_id, w1) \<Rightarrow>
      case collect_edges linked_titles [] w1 of
        Inl e \<Rightarrow> Inl e
      | Inr (edge_ids, w2) \<Rightarrow>
          Inr (if edge_ids \<noteq> [] then AList.update node_id edge_ids nodes_with_edges
               else nodes_with_edges, w2))"

text \<open>A \<open>for\<close> loop whose body may raise: the first exception ends it.\<close>

fun for_each :: "('a \<Rightarrow> 's \<Rightarrow> error + 's) \<Rightarrow> 'a list \<Rightarrow> 's \<Rightarrow> error + 's" where
  "for_each body [] st = Inr st"
| "for_each body (x # xs) st =
     (case body x st of Inl e \<Rightarrow> Inl e | Inr st' \<Rightarrow> for_each body xs st')"

text \<open>
  The first pass. The JSONL input is taken after \<open>json.loads\<close>: each line is the list of the
  items of its object, a title with the list of the titles it links to.
\<close>

definition first_pass ::
  "(str \<times> str list) list list \<Rightarrow> writer \<Rightarrow> error + ((nat \<times> nat list) list \<times> writer)" where
  "first_pass jsonl_file w =
     for_each (\<lambda>data st. for_each process_item data st) jsonl_file ([], w)"

text \<open>The second pass: one block per entry of \<open>nodes_with_edges\<close>, in its order.\<close>

fun write_blocks ::
  "zlib \<Rightarrow> (nat \<times> nat list) list \<Rightarrow> nat \<Rightarrow> writer \<Rightarrow> error + (nat \<times> writer)" where
  "write_blocks z [] current_pos w = Inr (current_pos, w)"
| "write_blocks z ((node_id, edge_ids) # rest) current_pos w =
     (let encoded_edges = encode_edges edge_ids;
          compressed = compress z encoded_edges
      in case pack_I (length compressed) of
           Inl e \<Rightarrow> Inl e
         | Inr len \<Rightarrow>
             (let w' = w\<lparr>outfile := outfile w @ len @ compressed,
                         index := index w @ [(node_id, current_pos)]\<rparr>
              in write_blocks z rest (length (outfile w')) w'))"

fun write_index :: "(nat \<times> nat) list \<Rightarrow> writer \<Rightarrow> error + writer" where
  "write_index [] w = Inr w"
| "write_index ((node_id, pos) # rest) w =
     (case pack_QQ node_id pos of
        Inl e \<Rightarrow> Inl e
      | Inr bs \<Rightarrow> write_index rest (w\<lparr>outfile := outfile w @ bs\<rparr>))"

text \<open>
  \<open>seek(pos)\<close> followed by \<open>write(bs)\<close> on a file opened with 'wb': the bytes from \<open>pos\<close> on
  are overwritten, the file growing where needed (a gap is filled with zero bytes).
\<close>

definition write_at :: "byte list \<Rightarrow> nat \<Rightarrow> byte list \<Rightarrow> byte list" where
  "write_at f pos bs =
     take pos f @ replicate (pos - length f) 0 @ bs @ drop (pos + length bs) f"

definition process_jsonl_dump ::
  "zlib \<Rightarrow> (str \<times> str list) list list \<Rightarrow> writer \<Rightarrow> error + writer" where
  "process_jsonl_dump z jsonl_file w0 =
     (case write_header w0 of
        Inl e \<Rightarrow> Inl e
      | Inr w1 \<Rightarrow>
     (let current_pos = length (outfile w1) in
      case first_pass jsonl_file w1 of
        Inl e \<Rightarrow> Inl e
      | Inr (nodes_with_edges, w2) \<Rightarrow>
      case write_blocks z nodes_with_edges current_pos w2 of
        Inl e \<Rightarrow> Inl e
      | Inr (index_pos, w3) \<Rightarrow>
      case write_index (sort (index w3)) w3 of
        Inl e \<Rightarrow> Inl e
      | Inr w4 \<Rightarrow>
      case pack_Q index_pos of
        Inl e \<Rightarrow> Inl e
      | Inr trailer \<Rightarrow>
     (let w5 = w4\<lparr>outfile := outfile w4 @ trailer\<rparr> in
      case pack_I (current_node_id w5) of
        Inl e \<Rightarrow> Inl e
      | Inr cnt \<Rightarrow> Inr (w5\<lparr>outfile := write_at (outfile w5) 8 cnt\<rparr>))))"

text \<open>\<open>convert_wiki_jsonl\<close>: a fresh writer, the dump, and the two files it leaves.\<close>

definition convert_wiki_jsonl ::
  "zlib \<Rightarrow> (str \<times> str list) list list \<Rightarrow> error + (byte list \<times> str)" where
  "convert_wiki_jsonl z jsonl_file =
     (case process_jsonl_dump z jsonl_file writer_init of
        Inl e \<Rightarrow> Inl e
      | Inr w \<Rightarrow> Inr (outfile w, mapfile w))"

section \<open>WikiLinkReader\<close>

record reader =
  mmap :: "byte list"
  version :: nat
  node_count :: nat
  index_pos :: nat
  rindex :: "(nat \<times> nat) list"
  title_map :: bidict

text \<open>
  \<open>load_index\<close>: while \<open>pos < len(mmap) - 8\<close>, unpack the 16 bytes of the slice at \<open>pos\<close>;
  a slice that is shorter makes \<open>struct.unpack\<close> raise, and the \<open>except\<close> leaves the loop.
\<close>

function load_index :: "byte list \<Rightarrow> nat \<Rightarrow> (nat \<times> nat) list" where
  "load_index mm pos =
     (if int pos < int (length mm) - 8
      then (case unpack_QQ (slice mm pos (pos + 16)) of
              Inl e \<Rightarrow> []
            | Inr entry \<Rightarrow> entry # load_index mm (pos + 16))
      else [])"
  by pat_completeness auto
termination
  by (relation "measure (\<lambda>(mm, pos). length mm - pos)") auto

declare load_index.simps [simp del]

text \<open>
  \<open>load_title_map\<close>: a line that does not split into two fields at the tab, or whose first
  field is no int, raises inside the \<open>try\<close> and is skipped.
\<close>

definition load_line :: "str \<Rightarrow> bidict \<Rightarrow> bidict" where
  "load_line line b =
     (case split_tab [] (strip line) of
        [node_id, title] \<Rightarrow>
          (case py_int node_id of Some i \<Rightarrow> bidict_setitem b i title | None \<Rightarrow> b)
      | _ \<Rightarrow> b)"

definition load_title_map :: "str \<Rightarrow> bidict" where
  "load_title_map contents = fold load_line (py_lines [] contents) bidict_empty"

text \<open>
  \<open>WikiLinkReader.__init__\<close> on the contents of the two files. After the header is
  unpacked the file has at least 16 bytes, so \<open>seek(-8, 2)\<close> succeeds.
\<close>

definition reader_open :: "byte list \<Rightarrow> str \<Rightarrow> error + reader" where
  "reader_open file map_contents =
     (if file = [] then Inl MmapEmptyFile
      else if slice file 0 8 \<noteq> MAGIC then Inl InvalidFileFormat
      else case unpack_II (slice file 8 16) of
             Inl e \<Rightarrow> Inl e
           | Inr (ver, cnt) \<Rightarrow>
          (case unpack_Q (slice file (length file - 8) (length file)) of
             Inl e \<Rightarrow> Inl e
           | Inr ipos \<Rightarrow>
               Inr \<lparr>mmap = file, version = ver, node_count = cnt, index_pos = ipos,
                    rindex = load_index file ipos,
                    title_map = load_title_map map_contents\<rparr>))"

text \<open>The loop of \<open>find_block\<close>; \<open>left\<close> and \<open>right\<close> are ints, \<open>right\<close> may reach -1.\<close>

function bsearch :: "(nat \<times> nat) list \<Rightarrow> nat \<Rightarrow> int \<Rightarrow> int \<Rightarrow> nat option" where
  "bsearch idx node_id left right =
     (if left \<le> right
      then (let mid = (left + right) div 2;
                current_id = fst (idx ! nat mid)
            in if current_id = node_id then Some (snd (idx ! nat mid))
               else if current_id < node_id then bsearch idx node_id (mid + 1) right
               else bsearch idx node_id left (mid - 1))
      else None)"
  by pat_completeness auto
termination
  by (relation "measure (\<lambda>(idx, node_id, left, right). nat (right - left + 1))") auto

declare bsearch.simps [simp del]

definition find_block :: "reader \<Rightarrow> nat \<Rightarrow> error + nat option" where
  "find_block r node_id =
     (if rindex r = [] then Inl IndexEmpty
      else Inr (bsearch (rindex r) node_id 0 (int (length (rindex r)) - 1)))"

text \<open>Lines 259 to 278 of \<open>get_neighbors\<close>: the decoding of the decompressed block.\<close>

definition decode_block :: "byte list \<Rightarrow> error + nat list" where
  "decode_block data =
     (case varint_decode_bytes data of
        Inl e \<Rightarrow> Inl e
      | Inr num_edges \<Rightarrow>
          if num_edges = 0 then Inr []
          else decode_deltas num_edges data (length (varint_encode num_edges)) 0 [])"

definition get_neighbors :: "zlib \<Rightarrow> reader \<Rightarrow> nat \<Rightarrow> error + nat list" where
  "get_neighbors z r node_id =
     (case find_block r node_id of
        Inl e \<Rightarrow> Inl e
      | Inr None \<Rightarrow> Inr []
      | Inr (Some block_pos) \<Rightarrow>
         (case unpack_I (slice (mmap r) block_pos (block_pos + 4)) of
            Inl e \<Rightarrow> Inl e
          | Inr block_size \<Rightarrow>
             (let compressed = slice (mmap r) (block_pos + 4) (block_pos + 4 + block_size)
              in case decompress z compressed of
                   Inl e \<Rightarrow> Inl e
                 | Inr data \<Rightarrow> decode_block data)))"

definition get_title :: "reader \<Rightarrow> nat \<Rightarrow> str option" where
  "get_title r node_id = bidict_get_int (title_map r) (int node_id)"

section \<open>Layout of the index, query after conversion, and sample stores\<close>

text \<open>The bytes of an index: 16 bytes per entry, the id and the offset as u64, little-endian.\<close>

definition index_bytes :: "(nat \<times> nat) list \<Rightarrow> byte list" where
  "index_bytes es = concat (map (\<lambda>(node_id, pos). le_bytes 8 node_id @ le_bytes 8 pos) es)"

text \<open>
  The \<open>__main__\<close> block: convert the dump, open the reader on the two files written, query one
  node id.
\<close>

definition convert_and_query ::
  "zlib \<Rightarrow> (str \<times> str list) list list \<Rightarrow> nat \<Rightarrow> error + nat list" where
  "convert_and_query z jsonl_file node_id =
     (case convert_wiki_jsonl z jsonl_file of
        Inl e \<Rightarrow> Inl e
      | Inr (file, map_contents) \<Rightarrow>
          (case reader_open file map_contents of
             Inl e \<Rightarrow> Inl e
           | Inr r \<Rightarrow> get_neighbors z r node_id))"

text \<open>
  Three stores with no blocks: one whose version field is 2, one whose index is not sorted, one
  whose index region is 3 bytes long.
\<close>

definition version2_store :: "byte list" where
  "version2_store = MAGIC @ le_bytes 4 2 @ le_bytes 4 0 @ le_bytes 8 16"

definition unsorted_store :: "byte list" where
  "unsorted_store =
     MAGIC @ le_bytes 4 1 @ le_bytes 4 0 @ index_bytes [(5, 16), (3, 16)] @ le_bytes 8 16"

definition ragged_store :: "byte list" where
  "ragged_store = MAGIC @ le_bytes 4 1 @ le_bytes 4 0 @ [1, 2, 3] @ le_bytes 8 16"

section \<open>Layout of the blocks\<close>

text \<open>
  What the second pass writes for one node, for all of \<open>nodes_with_edges\<close>, and the index
  entries it appends, the first block starting at \<open>pos\<close>.
\<close>

definition block_bytes :: "zlib \<Rightarrow> nat list \<Rightarrow> byte list" where
  "block_bytes z edge_ids =
     le_bytes 4 (length (compress z (encode_edges edge_ids))) @ compress z (encode_edges edge_ids)"

definition blocks_bytes :: "zlib \<Rightarrow> (nat \<times> nat list) list \<Rightarrow> byte list" where
  "blocks_bytes z nodes_with_edges =
     concat (map (\<lambda>(node_id, edge_ids). block_bytes z edge_ids) nodes_with_edges)"

fun block_index :: "zlib \<Rightarrow> nat \<Rightarrow> (nat \<times> nat list) list \<Rightarrow> (nat \<times> nat) list" where
  "block_index z pos [] = []"
| "block_index z pos ((node_id, edge_ids) # rest) =
     (node_id, pos) # block_index z (pos + length (block_bytes z edge_ids)) rest"

text \<open>The writer after \<open>write_header\<close>.\<close>

definition header_writer :: writer where
  "header_writer = writer_init\<lparr>outfile := MAGIC @ le_bytes 4 1 @ le_bytes 4 0\<rparr>"

text \<open>The \<open>__main__\<close> block up to the construction of the reader.\<close>

definition convert_and_open ::
  "zlib \<Rightarrow> (str \<times> str list) list list \<Rightarrow> error + reader" where
  "convert_and_open z jsonl_file =
     (case convert_wiki_jsonl z jsonl_file of
        Inl e \<Rightarrow> Inl e
      | Inr (file, map_contents) \<Rightarrow> reader_open file map_contents)"

text \<open>
  A dump of three lines: title A occurs twice as a source with destinations, title B once
  with none. The store the writer makes of it, with the codec that stores.
\<close>

definition example_dump :: "(str \<times> str list) list list" where
  "example_dump =
     [[(str_of ''A'', [str_of ''B'', str_of ''C''])], [(str_of ''B'', [])],
      [(str_of ''C'', [str_of ''A'']), (str_of ''A'', [str_of ''C'', str_of ''C''])]]"

definition example_store :: writer where
  "example_store = projr (process_jsonl_dump zlib_stored example_dump writer_init)"

section \<open>What the first pass collects\<close>

text \<open>\<open>self.node_map[title]\<close> in a finished writer, for an interned title.\<close>

definition id_of :: "writer \<Rightarrow> str \<Rightarrow> nat" where
  "id_of w title = the (map_of (node_map w) title)"

text \<open>
  The destination list of the last record of the input, in reading order, whose source is
  \<open>title\<close> and whose list is not empty; \<open>None\<close> when there is no such record.
\<close>

fun last_edges :: "(str \<times> str list) list \<Rightarrow> str \<Rightarrow> str list option" where
  "last_edges [] title = None"
| "last_edges ((src, dsts) # rest) title =
     (case last_edges rest title of
        Some later \<Rightarrow> Some later
      | None \<Rightarrow> if src = title \<and> dsts \<noteq> [] then Some dsts else None)"

text \<open>
  The line of the sidecar for one entry of \<open>node_map\<close>, and the state the writer keeps in the
  first pass: the ids are \<open>0, 1, ...\<close> in the order of interning, no title is interned twice,
  and the sidecar holds one line per entry, in that order.
\<close>

definition sidecar_line :: "str \<times> nat \<Rightarrow> str" where
  "sidecar_line e = str_nat (snd e) @ [TAB] @ fst e @ [LF]"

definition wf_writer :: "writer \<Rightarrow> bool" where
  "wf_writer w =
     (map snd (node_map w) = [0..<current_node_id w]
      \<and> distinct (map fst (node_map w))
      \<and> mapfile w = concat (map sidecar_line (node_map w)))"

text \<open>
  What \<open>nodes_with_edges\<close> holds after the records \<open>items\<close>: one entry per key; for every
  title with a record that has destinations, the ids of the destinations of the last such
  record, under that title's id; nothing under any other id.
\<close>

definition collected ::
  "(str \<times> str list) list \<Rightarrow> (nat \<times> nat list) list \<Rightarrow> writer \<Rightarrow> bool" where
  "collected items nwe w =
     (distinct (map fst nwe)
      \<and> (\<forall>t ds. last_edges items t = Some ds \<longrightarrow>
            map_of (node_map w) t \<noteq> None \<and> list_all (\<lambda>d. map_of (node_map w) d \<noteq> None) ds
            \<and> map_of nwe (id_of w t) = Some (map (id_of w) ds))
      \<and> (\<forall>i es. map_of nwe i = Some es \<longrightarrow>
            (\<exists>t. map_of (node_map w) t = Some i \<and> last_edges items t \<noteq> None)))"

section \<open>Titles that survive the sidecar\<close>

text \<open>
  A title that the reader's \<open>line.strip().split('\t')\<close> gives back as written: not empty, not
  ending in a whitespace character (any of \<open>is_space\<close>, so of all of Unicode), and free of
  tab, line feed and carriage return. A record is clean when its source and all its
  destinations are.
\<close>

definition clean_title :: "str \<Rightarrow> bool" where
  "clean_title t =
     (t \<noteq> [] \<and> \<not> is_space (last t)
      \<and> list_all (\<lambda>c. c \<noteq> TAB \<and> c \<noteq> LF \<and> c \<noteq> CR) t)"

definition clean_record :: "str \<times> str list \<Rightarrow> bool" where
  "clean_record rec = (clean_title (fst rec) \<and> list_all clean_title (snd rec))"

section \<open>Varint round trip\<close>

lemma unat_byte_of_nat: "n < 256 \<Longrightarrow> unat (of_nat n :: byte) = n"
  by (simp add: unat_of_nat)

lemma varint_encode_nonempty: "varint_encode n \<noteq> []"
  by (subst varint_encode.simps) simp

lemma varint_encode_length: "n < 2 ^ (7 * k) \<Longrightarrow> 0 < k \<Longrightarrow> length (varint_encode n) \<le> k"
proof (induction n arbitrary: k rule: varint_encode.induct)
  case (1 n)
  show ?case
  proof (cases "n div 128 = 0")
    case True
    then show ?thesis using 1(3) by (subst varint_encode.simps) simp
  next
    case False
    then have "128 \<le> n" by (simp add: div_eq_0_iff)
    with 1(2) have "k \<noteq> 1" by auto
    with 1(3) obtain j where k: "k = Suc j" and j: "0 < j" by (cases k) auto
    have "n div 128 < 2 ^ (7 * j)"
    proof -
      have "n < 128 * 2 ^ (7 * j)" using 1(2) k by (simp add: power_add)
      then show ?thesis by (simp add: less_mult_imp_div_less mult.commute)
    qed
    from 1(1)[OF False this j] show ?thesis using False k
      by (subst varint_encode.simps) simp
  qed
qed

lemma varint_encode_length_64: "n < 2 ^ 64 \<Longrightarrow> length (varint_encode n) \<le> 10"
proof -
  assume "n < 2 ^ 64"
  then have "n < 2 ^ (7 * 10)" by (rule less_le_trans) simp
  then show ?thesis by (rule varint_encode_length) simp
qed

lemma varint_decode_encode:
  "k + length (varint_encode n) \<le> 10 \<Longrightarrow>
   varint_decode k s r (varint_encode n @ rest) = Inr (r + n * 2 ^ s)"
proof (induction n arbitrary: k s r rule: varint_encode.induct)
  case (1 n)
  show ?case
  proof (cases "n div 128 = 0")
    case True
    then have e: "varint_encode n = [of_nat (n mod 128)]" by (subst varint_encode.simps) simp
    have u: "unat (of_nat (n mod 128) :: byte) = n mod 128" by (simp add: unat_of_nat)
    have "n < 128" using True by (simp add: div_eq_0_iff)
    then show ?thesis using 1(2) e u by simp
  next
    case False
    then have e: "varint_encode n = of_nat (n mod 128 + 128) # varint_encode (n div 128)"
      by (subst varint_encode.simps) simp
    have u: "unat (of_nat (n mod 128 + 128) :: byte) = n mod 128 + 128"
      by (rule unat_byte_of_nat) simp
    have k: "Suc k + length (varint_encode (n div 128)) \<le> 10" using 1(2) e by simp
    have k10: "\<not> 10 \<le> k" using 1(2) e by simp
    have split: "(m + 128 * q) * 2 ^ s = m * 2 ^ s + q * 2 ^ (s + 7)" for m q :: nat
      by (simp add: algebra_simps power_add)
    have "n * 2 ^ s = (n mod 128) * 2 ^ s + (n div 128) * 2 ^ (s + 7)"
      using split [of "n mod 128" "n div 128"] by simp
    then show ?thesis using 1(1)[OF False k, of "s + 7" "r + (n mod 128) * 2 ^ s"] e u k10
      by simp
  qed
qed

section \<open>Edge-list round trip\<close>

lemma varint_decode_bytes_encode:
  "n < 2 ^ 64 \<Longrightarrow> varint_decode_bytes (varint_encode n @ rest) = Inr n"
  using varint_decode_encode [of 0 n 0 0 rest] varint_encode_length_64 [of n]
  by (simp add: varint_decode_bytes_def)

lemma encode_deltas_acc: "encode_deltas acc prev xs = acc @ encode_deltas [] prev xs"
proof (induction xs arbitrary: acc prev)
  case Nil
  show ?case by simp
next
  case (Cons x xs)
  show ?case
    using Cons.IH [of "acc @ varint_encode (x - prev)" x] Cons.IH [of "varint_encode (x - prev)" x]
    by simp
qed

lemma decode_deltas_encode:
  "sorted (prev # xs) \<Longrightarrow> list_all (\<lambda>x. x < 2 ^ 64) xs \<Longrightarrow>
   decode_deltas (length xs) (pre @ encode_deltas [] prev xs @ rest) (length pre) prev acc
     = Inr (acc @ xs)"
proof (induction xs arbitrary: pre prev acc)
  case Nil
  show ?case by simp
next
  case (Cons x xs)
  let ?d = "varint_encode (x - prev)"
  have px: "prev \<le> x" using Cons.prems(1) by simp
  have d64: "x - prev < 2 ^ 64" using Cons.prems(2) by (simp add: less_imp_diff_less)
  have enc: "encode_deltas [] prev (x # xs) = ?d @ encode_deltas [] x xs"
    using encode_deltas_acc [of ?d x xs] by simp
  have dec: "varint_decode_bytes (drop (length pre) (pre @ encode_deltas [] prev (x # xs) @ rest))
      = Inr (x - prev)"
    using varint_decode_bytes_encode [OF d64, of "encode_deltas [] x xs @ rest"] enc by simp
  have s: "sorted (x # xs)" using Cons.prems(1) by simp
  have a: "list_all (\<lambda>x. x < 2 ^ 64) xs" using Cons.prems(2) by simp
  have "decode_deltas (length xs) ((pre @ ?d) @ encode_deltas [] x xs @ rest)
          (length (pre @ ?d)) x (acc @ [x]) = Inr ((acc @ [x]) @ xs)"
    by (rule Cons.IH [OF s a])
  then show ?case using dec enc px by simp
qed

lemma encode_edges_eq:
  "encode_edges L = varint_encode (length L) @ encode_deltas [] 0 (sort L)"
  unfolding encode_edges_def by (rule encode_deltas_acc)

lemma verify_decode_encode_edges:
  assumes "list_all (\<lambda>x. x < 2 ^ 64) L" and "length L < 2 ^ 64"
  shows "verify_decode (encode_edges L @ rest) = Inr (sort L)"
proof -
  let ?c = "varint_encode (length L)"
  have cnt: "varint_decode_bytes (encode_edges L @ rest) = Inr (length L)"
    using varint_decode_bytes_encode [OF assms(2)] by (simp add: encode_edges_eq)
  have a: "list_all (\<lambda>x. x < 2 ^ 64) (sort L)" using assms(1) by (simp add: list_all_iff)
  have "decode_deltas (length (sort L)) (?c @ encode_deltas [] 0 (sort L) @ rest) (length ?c) 0 []
      = Inr ([] @ sort L)"
    by (rule decode_deltas_encode) (use a in simp_all)
  then show ?thesis using cnt by (simp add: verify_decode_def encode_edges_eq)
qed

text \<open>
  Claim C3 (edge-list codec round trip). For every list \<open>L\<close> of ids (unsigned 64-bit values,
  the list shorter than \<open>2 ^ 64\<close>), decoding \<open>encode_edges L\<close> the way \<open>verify_encoding\<close>
  does (the varint count, then that many varint deltas summed up from \<open>prev = 0\<close>) yields
  \<open>sort L\<close>: the writer sorts and does not de-duplicate, and \<open>verify_encoding\<close> accepts.
\<close>

theorem edge_list_roundtrip:
  assumes "list_all (\<lambda>x. x < 2 ^ 64) L" and "length L < 2 ^ 64"
  shows "verify_decode (encode_edges L) = Inr (sort L)
       \<and> verify_encoding L (encode_edges L) = Inr True"
  using verify_decode_encode_edges [OF assms, of "[]"] by (simp add: verify_encoding_def)

theorem edge_list_roundtrip_witness:
  "list_all (\<lambda>x. x < 2 ^ 64) [300, 2, 2, 70000 :: nat]
   \<and> length [300, 2, 2, 70000 :: nat] < 2 ^ 64
   \<and> verify_decode (encode_edges [300, 2, 2, 70000]) = Inr [2, 2, 300, 70000]
   \<and> verify_encoding [300, 2, 2, 70000] (encode_edges [300, 2, 2, 70000]) = Inr True"
  using edge_list_roundtrip [of "[300, 2, 2, 70000]"] by simp

section \<open>Reading the header and the index\<close>

lemma length_le_bytes [simp]: "length (le_bytes k n) = k"
  by (induction k arbitrary: n) simp_all

lemma le_value_le_bytes: "n < 256 ^ k \<Longrightarrow> le_value (le_bytes k n) = n"
proof (induction k arbitrary: n)
  case 0
  then show ?case by simp
next
  case (Suc k)
  have "n div 256 < 256 ^ k" using Suc.prems by (simp add: less_mult_imp_div_less mult.commute)
  then have "le_value (le_bytes k (n div 256)) = n div 256" by (rule Suc.IH)
  moreover have "unat (of_nat (n mod 256) :: byte) = n mod 256" by (simp add: unat_of_nat)
  ultimately show ?case by simp
qed

lemma le_value_le_bytes_4: "n < 2 ^ 32 \<Longrightarrow> le_value (le_bytes 4 n) = n"
  using le_value_le_bytes [of n 4] by simp

lemma le_value_le_bytes_8: "n < 2 ^ 64 \<Longrightarrow> le_value (le_bytes 8 n) = n"
  using le_value_le_bytes [of n 8] by simp

lemma slice_0: "slice buf 0 n = take n buf"
  by (simp add: slice_def)

lemma slice_append_at: "slice (p @ s) (length p) (length p + n) = take n s"
  by (simp add: slice_def)

lemma slice_append_at': "a = length p \<Longrightarrow> b = a + n \<Longrightarrow> slice (p @ s) a b = take n s"
  by (simp add: slice_def)

lemma slice_length_le: "length (slice buf a b) \<le> b - a"
  by (simp add: slice_def)

lemma unpack_QQ_le_bytes:
  "i < 2 ^ 64 \<Longrightarrow> off < 2 ^ 64 \<Longrightarrow> unpack_QQ (le_bytes 8 i @ le_bytes 8 off) = Inr (i, off)"
  by (simp add: unpack_QQ_def le_value_le_bytes_8)

lemma load_index_layout:
  assumes "list_all (\<lambda>(i, off). i < 2 ^ 64 \<and> off < 2 ^ 64) es"
    and "length tail < 8" and "length tr = 8"
  shows "load_index (p @ index_bytes es @ tail @ tr) (length p) = es"
  using assms(1)
proof (induction es arbitrary: p)
  case Nil
  show ?case
  proof (cases "tail = []")
    case True
    then show ?thesis using assms(3) by (subst load_index.simps) (simp add: index_bytes_def)
  next
    case False
    have "length (slice (p @ tail @ tr) (length p) (length p + 16)) = length tail + 8"
      using assms(2,3) by (simp add: slice_append_at)
    then have "unpack_QQ (slice (p @ tail @ tr) (length p) (length p + 16)) = Inl StructError"
      using assms(2) by (simp add: unpack_QQ_def)
    then show ?thesis by (subst load_index.simps) (simp add: index_bytes_def)
  qed
next
  case (Cons e es)
  obtain i off where e: "e = (i, off)" by (cases e)
  let ?eb = "le_bytes 8 i @ le_bytes 8 off"
  let ?rest = "index_bytes es @ tail @ tr"
  have b: "i < 2 ^ 64" "off < 2 ^ 64" using Cons.prems e by simp_all
  have ib: "index_bytes ((i, off) # es) = ?eb @ index_bytes es" by (simp add: index_bytes_def)
  have sl: "slice (p @ index_bytes ((i, off) # es) @ tail @ tr) (length p) (length p + 16) = ?eb"
    by (simp add: ib slice_append_at)
  have c: "int (length p) < int (length (p @ index_bytes ((i, off) # es) @ tail @ tr)) - 8"
    using assms(3) by (simp add: ib)
  have "load_index ((p @ ?eb) @ index_bytes es @ tail @ tr) (length (p @ ?eb)) = es"
    by (rule Cons.IH) (use Cons.prems in simp)
  then have r: "load_index (p @ index_bytes ((i, off) # es) @ tail @ tr) (length p + 16) = es"
    by (simp add: ib)
  have "load_index (p @ index_bytes ((i, off) # es) @ tail @ tr) (length p) = (i, off) # es"
    by (subst load_index.simps) (simp only: c sl unpack_QQ_le_bytes [OF b] r if_True sum.case)
  then show ?case by (simp only: e)
qed

lemma reader_open_ok:
  assumes "slice file 0 8 = MAGIC" and "16 \<le> length file"
  shows "reader_open file m =
     Inr \<lparr>mmap = file, version = le_value (slice file 8 12), node_count = le_value (slice file 12 16),
          index_pos = le_value (slice file (length file - 8) (length file)),
          rindex = load_index file (le_value (slice file (length file - 8) (length file))),
          title_map = load_title_map m\<rparr>"
proof -
  have ne: "file \<noteq> []" using assms(2) by auto
  have l1: "length (slice file 8 16) = 8" using assms(2) by (simp add: slice_def)
  have l2: "length (slice file (length file - 8) (length file)) = 8"
    using assms(2) by (simp add: slice_def)
  have t: "take 4 (slice file 8 16) = slice file 8 12" by (simp add: slice_def min_def)
  have d: "drop 4 (slice file 8 16) = slice file 12 16"
    by (simp add: slice_def drop_take)
  show ?thesis
    using ne assms(1) l1 l2 t d by (simp add: reader_open_def unpack_II_def unpack_Q_def)
qed

lemma bsearch_Some:
  "bsearch idx node_id left right = Some off \<Longrightarrow> 0 \<le> left \<Longrightarrow> right < int (length idx)
   \<Longrightarrow> (node_id, off) \<in> set idx"
proof (induction idx node_id left right rule: bsearch.induct)
  case (1 idx node_id left right)
  show ?case
  proof (cases "left \<le> right")
    case False
    then show ?thesis using "1.prems"(1) by (subst (asm) bsearch.simps) simp
  next
    case True
    let ?mid = "(left + right) div 2"
    have m: "left \<le> ?mid" "?mid \<le> right" using True by auto
    then have inr: "nat ?mid < length idx" using "1.prems"(2,3) by auto
    consider (eq) "fst (idx ! nat ?mid) = node_id"
      | (lt) "fst (idx ! nat ?mid) \<noteq> node_id" "fst (idx ! nat ?mid) < node_id"
      | (gt) "fst (idx ! nat ?mid) \<noteq> node_id" "\<not> fst (idx ! nat ?mid) < node_id"
      by blast
    then show ?thesis
    proof cases
      case eq
      then have "off = snd (idx ! nat ?mid)"
        using "1.prems"(1) True by (subst (asm) bsearch.simps) (simp add: Let_def)
      then have "idx ! nat ?mid = (node_id, off)" using eq by (simp add: prod_eq_iff)
      then show ?thesis using inr by (metis nth_mem)
    next
      case lt
      then have "bsearch idx node_id (?mid + 1) right = Some off"
        using "1.prems"(1) True by (subst (asm) bsearch.simps) (simp add: Let_def)
      then show ?thesis
        using "1.IH"(1) [OF True refl refl lt(1) lt(2)] m "1.prems"(2,3) by simp
    next
      case gt
      then have "bsearch idx node_id left (?mid - 1) = Some off"
        using "1.prems"(1) True by (subst (asm) bsearch.simps) (simp add: Let_def)
      then show ?thesis
        using "1.IH"(2) [OF True refl refl gt(1) gt(2)] m "1.prems"(2,3) by simp
    qed
  qed
qed

lemma find_block_miss:
  assumes "rindex r \<noteq> []" and "node_id \<notin> fst ` set (rindex r)"
  shows "find_block r node_id = Inr None"
proof -
  have "bsearch (rindex r) node_id 0 (int (length (rindex r)) - 1) = None"
  proof (cases "bsearch (rindex r) node_id 0 (int (length (rindex r)) - 1)")
    case None
    then show ?thesis .
  next
    case (Some off)
    then have "(node_id, off) \<in> set (rindex r)" by (rule bsearch_Some) simp_all
    then have "node_id \<in> fst ` set (rindex r)" by force
    then show ?thesis using assms(2) by simp
  qed
  then show ?thesis using assms(1) by (simp add: find_block_def)
qed

lemma decode_deltas_length:
  "decode_deltas n data pos prev acc = Inr es \<Longrightarrow> length es = length acc + n"
proof (induction n arbitrary: pos prev acc)
  case 0
  then show ?case by simp
next
  case (Suc n)
  then show ?case by (auto split: sum.splits)
qed

lemma decode_block_eq_verify_decode: "decode_block data = verify_decode data"
  by (simp add: decode_block_def verify_decode_def split: sum.splits)

section \<open>Evaluation on concrete inputs\<close>

lemma le_bytes_numeral:
  "le_bytes (numeral k) n = of_nat (n mod 256) # le_bytes (pred_numeral k) (n div 256)"
  using le_bytes.simps(2) [of "pred_numeral k" n] by (simp only: numeral_eq_Suc [symmetric])

lemma decode_deltas_numeral:
  "decode_deltas (numeral k) data pos prev edges =
     (case varint_decode_bytes (drop pos data) of
        Inl e \<Rightarrow> Inl e
      | Inr delta \<Rightarrow>
          decode_deltas (pred_numeral k) data (pos + length (varint_encode delta)) (prev + delta)
            (edges @ [prev + delta]))"
  using decode_deltas.simps(2) [of "pred_numeral k"] by (simp only: numeral_eq_Suc [symmetric])

lemma decode_deltas_1:
  "decode_deltas 1 data pos prev edges =
     (case varint_decode_bytes (drop pos data) of
        Inl e \<Rightarrow> Inl e
      | Inr delta \<Rightarrow>
          decode_deltas 0 data (pos + length (varint_encode delta)) (prev + delta)
            (edges @ [prev + delta]))"
  using decode_deltas.simps(2) [of 0] by simp

lemmas eval_simps =
  le_bytes_numeral decode_deltas_numeral decode_deltas_1 varint_decode_bytes_def
  varint_encode.simps load_index.simps bsearch.simps str_nat.simps
  MAGIC_def VERSION_def pack_I_def pack_Q_def pack_II_def pack_QQ_def
  unpack_I_def unpack_Q_def unpack_II_def unpack_QQ_def slice_def
  zlib_stored_def index_bytes_def

lemma length_MAGIC: "length MAGIC = 8"
  by (simp add: MAGIC_def)

section \<open>Claims about the decoder and the reader\<close>

text \<open>
  Claim C6 (trailing bytes in a decompressed block), as the code has it. The decoder of
  \<open>get_neighbors\<close> returns exactly \<open>count\<close> values whenever it returns; it does not look at
  what follows the last delta: on the bytes \<open>encode_edges\<close> produced for a list of ids, followed
  by any bytes at all, it returns the sorted list. There is no TrailingGarbage error.
\<close>

theorem decode_block_trailing:
  "(decode_block data = Inr es \<longrightarrow> varint_decode_bytes data = Inr (length es))
   \<and> (list_all (\<lambda>x. x < 2 ^ 64) L \<and> length L < 2 ^ 64
        \<longrightarrow> decode_block (encode_edges L @ garbage) = Inr (sort L))"
proof
  show "decode_block data = Inr es \<longrightarrow> varint_decode_bytes data = Inr (length es)"
    using decode_deltas_length [of _ data _ 0 "[]" es]
    by (auto simp: decode_block_def split: sum.splits if_splits)
  show "list_all (\<lambda>x. x < 2 ^ 64) L \<and> length L < 2 ^ 64
        \<longrightarrow> decode_block (encode_edges L @ garbage) = Inr (sort L)"
    using verify_decode_encode_edges [of L garbage] by (simp add: decode_block_eq_verify_decode)
qed

theorem decode_block_trailing_witness:
  "decode_block [2, 3, 4, 9, 9] = Inr [3, 7]
   \<and> varint_decode_bytes [2, 3, 4, 9, 9] = Inr (length [3, 7 :: nat])
   \<and> list_all (\<lambda>x. x < 2 ^ 64) [7, 3 :: nat] \<and> length [7, 3 :: nat] < 2 ^ 64
   \<and> decode_block (encode_edges [7, 3] @ [9, 9]) = Inr (sort [7, 3])"
proof -
  have d: "decode_block [2, 3, 4, 9, 9] = Inr [3, 7]" by (simp add: decode_block_def eval_simps)
  have b: "list_all (\<lambda>x. x < 2 ^ 64) [7, 3 :: nat] \<and> length [7, 3 :: nat] < 2 ^ 64" by simp
  show ?thesis
    using decode_block_trailing [of "[2, 3, 4, 9, 9]" "[3, 7]" "[7, 3]" "[9, 9]"] d b by simp
qed

text \<open>
  The claim as stated fails: the payload with count 1, delta 5 and one more byte 255 decodes to
  \<open>[5]\<close> without error.
\<close>

theorem decode_block_counterexample: "decode_block [1, 5, 255] = Inr [5]"
  by (simp add: decode_block_def eval_simps)

text \<open>
  Claim C4 (absence is not an error), as the code has it. On a reader whose index is not empty,
  \<open>get_neighbors\<close> returns the empty list for every id that has no index entry. On a reader
  whose index is empty, \<open>find_block\<close> raises ValueError("Index is empty - no blocks found"),
  for every id.
\<close>

theorem neighbors_absent:
  "(rindex r = [] \<longrightarrow> get_neighbors z r node_id = Inl IndexEmpty)
   \<and> (rindex r \<noteq> [] \<and> node_id \<notin> fst ` set (rindex r) \<longrightarrow> get_neighbors z r node_id = Inr [])"
proof
  show "rindex r = [] \<longrightarrow> get_neighbors z r node_id = Inl IndexEmpty"
    by (simp add: get_neighbors_def find_block_def)
  show "rindex r \<noteq> [] \<and> node_id \<notin> fst ` set (rindex r) \<longrightarrow> get_neighbors z r node_id = Inr []"
    using find_block_miss [of r node_id] by (simp add: get_neighbors_def)
qed

theorem neighbors_absent_witness:
  "get_neighbors zlib_stored
     \<lparr>mmap = [], version = 1, node_count = 0, index_pos = 16, rindex = [],
      title_map = bidict_empty\<rparr> 5 = Inl IndexEmpty
   \<and> get_neighbors zlib_stored
     \<lparr>mmap = [], version = 1, node_count = 0, index_pos = 16, rindex = [(0, 16)],
      title_map = bidict_empty\<rparr> 5 = Inr []"
  using neighbors_absent [of "\<lparr>mmap = [], version = 1, node_count = 0, index_pos = 16, rindex = [],
      title_map = bidict_empty\<rparr>" zlib_stored 5]
    neighbors_absent [of "\<lparr>mmap = [], version = 1, node_count = 0, index_pos = 16,
      rindex = [(0, 16)], title_map = bidict_empty\<rparr>" zlib_stored 5]
  by simp

text \<open>
  The claim as stated fails on a store without blocks: converting the empty dump and asking for
  the neighbours of node 7 raises the ValueError.
\<close>

theorem empty_index_counterexample: "convert_and_query zlib_stored [] 7 = Inl IndexEmpty"
  by (simp add: convert_and_query_def convert_wiki_jsonl_def process_jsonl_dump_def
      write_header_def first_pass_def writer_init_def write_at_def get_neighbors_def
      find_block_def reader_open_def load_title_map_def eval_simps)

text \<open>
  Claim C7 (version gating), as the code has it. \<open>WikiLinkReader.__init__\<close> reads the version
  field and stores it; it never compares it. A file that starts with MAGIC followed by any
  32-bit version value and at least 4 more bytes opens, and the reader holds that version.
\<close>

theorem reader_open_any_version:
  assumes "v < 2 ^ 32" and "4 \<le> length rest"
  shows "\<not> isl (reader_open (MAGIC @ le_bytes 4 v @ rest) m)
       \<and> version (projr (reader_open (MAGIC @ le_bytes 4 v @ rest) m)) = v"
proof -
  let ?f = "MAGIC @ le_bytes 4 v @ rest"
  have m: "slice ?f 0 8 = MAGIC" by (simp add: slice_def length_MAGIC)
  have l: "16 \<le> length ?f" using assms(2) by (simp add: length_MAGIC)
  have v: "slice ?f 8 12 = le_bytes 4 v" by (simp add: slice_def length_MAGIC)
  show ?thesis
    by (simp add: reader_open_ok [OF m l] v le_value_le_bytes_4 [OF assms(1)])
qed

theorem reader_open_any_version_witness:
  "(7::nat) < 2 ^ 32 \<and> 4 \<le> length (le_bytes 4 0 @ le_bytes 8 16)
   \<and> \<not> isl (reader_open (MAGIC @ le_bytes 4 7 @ le_bytes 4 0 @ le_bytes 8 16) [])
   \<and> version (projr (reader_open (MAGIC @ le_bytes 4 7 @ le_bytes 4 0 @ le_bytes 8 16) [])) = 7"
  using reader_open_any_version [of 7 "le_bytes 4 0 @ le_bytes 8 16" "[]"] by simp

text \<open>The claim as stated fails: a store whose version field is 2 opens.\<close>

theorem version_counterexample:
  "\<not> isl (reader_open version2_store []) \<and> version (projr (reader_open version2_store [])) = 2"
  by (simp add: version2_store_def reader_open_def load_title_map_def eval_simps)

text \<open>
  Claim C5 (index-load validation), as the code has it. \<open>load_index\<close> reads the region from
  \<open>index_pos\<close> in 16-byte strides while \<open>pos < len(mmap) - 8\<close> and checks nothing: the
  entries are loaded in file order whatever the order of their ids, and a ragged tail of fewer
  than 8 bytes before the trailer ends the scan silently. No IndexCorrupt error is raised.
\<close>

theorem index_load_unvalidated:
  assumes "slice p 0 8 = MAGIC" and "16 \<le> length p" and "length p < 2 ^ 64"
    and "list_all (\<lambda>(i, off). i < 2 ^ 64 \<and> off < 2 ^ 64) es" and "length tail < 8"
  shows "map_sum id rindex (reader_open (p @ index_bytes es @ tail @ le_bytes 8 (length p)) m)
           = Inr es"
proof -
  let ?f = "p @ index_bytes es @ tail @ le_bytes 8 (length p)"
  have m: "slice ?f 0 8 = MAGIC" using assms(1,2) by (simp add: slice_def)
  have l: "16 \<le> length ?f" using assms(2) by simp
  have "?f = (p @ index_bytes es @ tail) @ le_bytes 8 (length p)" by simp
  then have "slice ?f (length ?f - 8) (length ?f) = le_bytes 8 (length p)"
    by (simp add: slice_def)
  then have ip: "le_value (slice ?f (length ?f - 8) (length ?f)) = length p"
    using le_value_le_bytes_8 [OF assms(3)] by simp
  have li: "load_index ?f (length p) = es"
    by (rule load_index_layout [OF assms(4,5)]) simp
  show ?thesis
    by (simp only: reader_open_ok [OF m l] ip li map_sum.simps reader.select_convs)
qed

theorem index_load_unvalidated_witness:
  "map_sum id rindex
     (reader_open ((MAGIC @ le_bytes 4 1 @ le_bytes 4 0) @ index_bytes [(9, 16), (2, 16)]
        @ [255] @ le_bytes 8 (length (MAGIC @ le_bytes 4 1 @ le_bytes 4 0))) [])
     = Inr [(9, 16), (2, 16)]"
  using index_load_unvalidated [of "MAGIC @ le_bytes 4 1 @ le_bytes 4 0" "[(9, 16), (2, 16)]"
      "[255]" "[]"]
  by (simp add: slice_def length_MAGIC)

text \<open>
  The claim as stated fails: a store whose index ids are 5 then 3 opens with that index, and a
  store whose index region is 3 bytes long opens with an empty index.
\<close>

theorem index_load_counterexample:
  "map_sum id rindex (reader_open unsorted_store []) = Inr [(5, 16), (3, 16)]
   \<and> map_sum id rindex (reader_open ragged_store []) = Inr []"
  by (simp add: unsorted_store_def ragged_store_def reader_open_def load_title_map_def eval_simps)

section \<open>What the writer leaves in the file\<close>

lemma write_header_init: "write_header writer_init = Inr header_writer"
  by (simp add: write_header_def pack_II_def pack_I_def VERSION_def header_writer_def writer_init_def)

lemma intern_outfile:
  "intern t w = Inr (i, w') \<Longrightarrow> outfile w' = outfile w \<and> index w' = index w"
  by (auto simp: intern_def split: option.splits if_splits)

lemma collect_edges_outfile:
  "collect_edges ts acc w = Inr (es, w') \<Longrightarrow> outfile w' = outfile w \<and> index w' = index w"
proof (induction ts arbitrary: acc w)
  case Nil
  then show ?case by simp
next
  case (Cons t ts)
  obtain i w1 where iw: "intern t w = Inr (i, w1)"
    and ce: "collect_edges ts (acc @ [i]) w1 = Inr (es, w')"
    using Cons.prems by (auto split: sum.splits)
  show ?case using Cons.IH [OF ce] intern_outfile [OF iw] by simp
qed

lemma process_item_Inr:
  assumes "process_item (t, ts) (nwe, w) = Inr (nwe', w')"
  shows "\<exists>i w1 es. intern t w = Inr (i, w1) \<and> collect_edges ts [] w1 = Inr (es, w')
       \<and> nwe' = (if es \<noteq> [] then AList.update i es nwe else nwe)"
proof -
  obtain i w1 where iw: "intern t w = Inr (i, w1)"
    using assms by (auto simp: process_item_def split: sum.splits)
  obtain es wc where ce: "collect_edges ts [] w1 = Inr (es, wc)"
    using assms iw by (auto simp: process_item_def split: sum.splits)
  have "wc = w'" and "nwe' = (if es \<noteq> [] then AList.update i es nwe else nwe)"
    using assms iw ce by (simp_all add: process_item_def)
  then show ?thesis using iw ce by blast
qed

lemma process_item_outfile:
  assumes "process_item item st = Inr st'"
  shows "outfile (snd st') = outfile (snd st) \<and> index (snd st') = index (snd st)"
proof -
  obtain t ts where item: "item = (t, ts)" by (cases item)
  obtain nwe w where st: "st = (nwe, w)" by (cases st)
  obtain nwe' w' where st': "st' = (nwe', w')" by (cases st')
  obtain i w1 es where iw: "intern t w = Inr (i, w1)"
    and ce: "collect_edges ts [] w1 = Inr (es, w')"
    using process_item_Inr [of t ts nwe w nwe' w'] assms by (auto simp: item st st')
  show ?thesis using intern_outfile [OF iw] collect_edges_outfile [OF ce] by (simp add: st st')
qed

lemma for_each_invariant:
  assumes "for_each body xs st = Inr st'" and "P st"
    and "\<And>x s s'. P s \<Longrightarrow> body x s = Inr s' \<Longrightarrow> P s'"
  shows "P st'"
  using assms(1,2)
proof (induction xs arbitrary: st)
  case Nil
  then show ?case by simp
next
  case (Cons x xs)
  obtain s1 where b: "body x st = Inr s1" and f: "for_each body xs s1 = Inr st'"
    using Cons.prems(1) by (auto split: sum.splits)
  show ?case by (rule Cons.IH [OF f assms(3) [OF Cons.prems(2) b]])
qed

lemma for_each_append:
  "for_each body (xs @ ys) st =
     (case for_each body xs st of Inl e \<Rightarrow> Inl e | Inr st' \<Rightarrow> for_each body ys st')"
  by (induction xs arbitrary: st) (auto split: sum.splits)

lemma first_pass_fold:
  "first_pass jsonl_file w = for_each process_item (concat jsonl_file) ([], w)"
proof -
  have "for_each (\<lambda>data st. for_each process_item data st) ls st
      = for_each process_item (concat ls) st"
    for ls and st :: "(nat \<times> nat list) list \<times> writer"
    by (induction ls arbitrary: st) (auto simp: for_each_append split: sum.splits)
  then show ?thesis by (simp add: first_pass_def)
qed

lemma first_pass_outfile:
  assumes "first_pass jsonl_file w = Inr (nwe, w2)"
  shows "outfile w2 = outfile w \<and> index w2 = index w"
proof -
  have f: "for_each process_item (concat jsonl_file) ([], w) = Inr (nwe, w2)"
    using assms by (simp add: first_pass_fold)
  have "outfile (snd (nwe, w2)) = outfile w \<and> index (snd (nwe, w2)) = index w"
    by (rule for_each_invariant [OF f, where P = "\<lambda>st. outfile (snd st) = outfile w \<and> index (snd st) = index w"])
      (use process_item_outfile in auto)
  then show ?thesis by simp
qed

lemma write_blocks_layout:
  "write_blocks z nwe (length (outfile w)) w = Inr (pos', w') \<Longrightarrow>
     outfile w' = outfile w @ blocks_bytes z nwe
     \<and> index w' = index w @ block_index z (length (outfile w)) nwe
     \<and> pos' = length (outfile w')
     \<and> node_map w' = node_map w \<and> mapfile w' = mapfile w
     \<and> current_node_id w' = current_node_id w
     \<and> list_all (\<lambda>(node_id, edge_ids). length (compress z (encode_edges edge_ids)) < 2 ^ 32) nwe"
proof (induction nwe arbitrary: w)
  case Nil
  then show ?case by (auto simp: blocks_bytes_def)
next
  case (Cons a nwe)
  obtain node_id edge_ids where a: "a = (node_id, edge_ids)" by (cases a)
  let ?c = "compress z (encode_edges edge_ids)"
  have lt: "length ?c < 2 ^ 32"
    using Cons.prems by (auto simp: a pack_I_def Let_def split: if_splits)
  let ?w = "w\<lparr>outfile := outfile w @ le_bytes 4 (length ?c) @ ?c,
               index := index w @ [(node_id, length (outfile w))]\<rparr>"
  have step: "write_blocks z nwe (length (outfile ?w)) ?w = Inr (pos', w')"
    using Cons.prems lt by (simp add: a pack_I_def Let_def)
  have bb: "blocks_bytes z ((node_id, edge_ids) # nwe) = block_bytes z edge_ids @ blocks_bytes z nwe"
    by (simp add: blocks_bytes_def)
  have len: "length (outfile ?w) = length (outfile w) + length (block_bytes z edge_ids)"
    by (simp add: block_bytes_def)
  show ?case
    using Cons.IH [OF step] lt by (simp add: a bb len block_bytes_def)
qed

lemma write_index_layout:
  "write_index es w = Inr w' \<Longrightarrow>
     outfile w' = outfile w @ index_bytes es
     \<and> index w' = index w \<and> node_map w' = node_map w \<and> mapfile w' = mapfile w
     \<and> current_node_id w' = current_node_id w
     \<and> list_all (\<lambda>(i, off). i < 2 ^ 64 \<and> off < 2 ^ 64) es"
proof (induction es arbitrary: w)
  case Nil
  then show ?case by (simp add: index_bytes_def)
next
  case (Cons e es)
  obtain i off where e: "e = (i, off)" by (cases e)
  have b: "i < 2 ^ 64 \<and> off < 2 ^ 64"
    using Cons.prems by (auto simp: e pack_QQ_def pack_Q_def split: if_splits sum.splits)
  let ?w = "w\<lparr>outfile := outfile w @ le_bytes 8 i @ le_bytes 8 off\<rparr>"
  have step: "write_index es ?w = Inr w'"
    using Cons.prems b by (simp add: e pack_QQ_def pack_Q_def)
  have ib: "index_bytes ((i, off) # es) = (le_bytes 8 i @ le_bytes 8 off) @ index_bytes es"
    by (simp add: index_bytes_def)
  show ?case using Cons.IH [OF step] b by (simp add: e ib)
qed

lemma write_at_header:
  "write_at (MAGIC @ le_bytes 4 a @ rest) 8 (le_bytes 4 n) = MAGIC @ le_bytes 4 n @ rest"
  by (simp add: write_at_def length_MAGIC)

lemma process_jsonl_dump_layout:
  assumes "process_jsonl_dump z S writer_init = Inr w"
    and fp: "first_pass S header_writer = Inr (nwe, w2)"
  shows "outfile w = MAGIC @ le_bytes 4 (current_node_id w2) @ le_bytes 4 0 @ blocks_bytes z nwe
            @ index_bytes (sort (block_index z 16 nwe))
            @ le_bytes 8 (16 + length (blocks_bytes z nwe))"
    and "index w = block_index z 16 nwe"
    and "node_map w = node_map w2" and "mapfile w = mapfile w2"
    and "current_node_id w = current_node_id w2"
    and "current_node_id w2 < 2 ^ 32"
    and "16 + length (blocks_bytes z nwe) < 2 ^ 64"
    and "list_all (\<lambda>(i, off). i < 2 ^ 64 \<and> off < 2 ^ 64) (sort (block_index z 16 nwe))"
    and "list_all (\<lambda>(node_id, edge_ids). length (compress z (encode_edges edge_ids)) < 2 ^ 32) nwe"
proof -
  have o2: "outfile w2 = MAGIC @ le_bytes 4 1 @ le_bytes 4 0" and i2: "index w2 = []"
    using first_pass_outfile [OF fp]
    by (simp_all add: header_writer_def writer_init_def)
  have l2: "length (outfile w2) = 16" by (simp add: o2 length_MAGIC)
  have lh: "length (outfile header_writer) = 16"
    by (simp add: header_writer_def length_MAGIC)
  obtain ipos w3 where wb: "write_blocks z nwe (length (outfile w2)) w2 = Inr (ipos, w3)"
    using assms(1) fp
    by (auto simp: process_jsonl_dump_def write_header_init Let_def lh l2 split: sum.splits)
  note L3 = write_blocks_layout [OF wb]
  obtain w4 where wi: "write_index (sort (index w3)) w3 = Inr w4"
    using assms(1) fp wb
    by (auto simp: process_jsonl_dump_def write_header_init Let_def lh l2 split: sum.splits)
  note L4 = write_index_layout [OF wi]
  have iq: "ipos < 2 ^ 64"
    using assms(1) fp wb wi
    by (auto simp: process_jsonl_dump_def write_header_init Let_def lh l2 pack_Q_def
        split: sum.splits if_splits)
  have nq: "current_node_id w4 < 2 ^ 32"
    using assms(1) fp wb wi iq
    by (auto simp: process_jsonl_dump_def write_header_init Let_def lh l2 pack_Q_def pack_I_def
        split: sum.splits if_splits)
  have w: "w = w4\<lparr>outfile := write_at (outfile w4 @ le_bytes 8 ipos) 8
                 (le_bytes 4 (current_node_id w4))\<rparr>"
    using assms(1) fp wb wi iq nq
    by (simp add: process_jsonl_dump_def write_header_init Let_def lh l2 pack_Q_def pack_I_def)
  have ip: "ipos = 16 + length (blocks_bytes z nwe)" using L3 l2 by simp
  have i3: "index w3 = block_index z 16 nwe" using L3 i2 l2 by simp
  have o4: "outfile w4 @ le_bytes 8 ipos =
      MAGIC @ le_bytes 4 1 @ (le_bytes 4 0 @ blocks_bytes z nwe
        @ index_bytes (sort (block_index z 16 nwe)) @ le_bytes 8 ipos)"
    using L3 L4 o2 i3 by simp
  have n4: "current_node_id w4 = current_node_id w2" using L3 L4 by simp
  have "outfile w = write_at (outfile w4 @ le_bytes 8 ipos) 8 (le_bytes 4 (current_node_id w4))"
    by (subst w) simp
  also have "\<dots> = MAGIC @ le_bytes 4 (current_node_id w4) @ (le_bytes 4 0 @ blocks_bytes z nwe
        @ index_bytes (sort (block_index z 16 nwe)) @ le_bytes 8 ipos)"
    unfolding o4 by (rule write_at_header)
  finally show "outfile w = MAGIC @ le_bytes 4 (current_node_id w2) @ le_bytes 4 0
            @ blocks_bytes z nwe @ index_bytes (sort (block_index z 16 nwe))
            @ le_bytes 8 (16 + length (blocks_bytes z nwe))"
    using n4 ip by simp
  show "index w = block_index z 16 nwe" using w L4 i3 by simp
  show "node_map w = node_map w2" using w L3 L4 by simp
  show "mapfile w = mapfile w2" using w L3 L4 by simp
  show "current_node_id w = current_node_id w2" using w n4 by simp
  show "current_node_id w2 < 2 ^ 32" using nq n4 by simp
  show "16 + length (blocks_bytes z nwe) < 2 ^ 64" using iq ip by simp
  show "list_all (\<lambda>(i, off). i < 2 ^ 64 \<and> off < 2 ^ 64) (sort (block_index z 16 nwe))"
    using L4 i3 by simp
  show "list_all (\<lambda>(node_id, edge_ids). length (compress z (encode_edges edge_ids)) < 2 ^ 32) nwe"
    using L3 by simp
qed

lemma process_jsonl_dump_first_pass:
  assumes "process_jsonl_dump z S writer_init = Inr w"
  shows "\<exists>nwe w2. first_pass S header_writer = Inr (nwe, w2)"
  using assms
  by (auto simp: process_jsonl_dump_def write_header_init Let_def split: sum.splits)

lemmas writer_eval_simps =
  convert_wiki_jsonl_def process_jsonl_dump_def write_header_def first_pass_def
  process_item_def intern_def writer_init_def write_at_def encode_edges_def
  utf8_encodable_def str_of_def digit_char_def

text \<open>
  Claim C2 (header after the patch step) does not hold of the code. The header is written as
  MAGIC, version 1, node count 0; the patch step seeks to offset 8, the version field, and
  writes the node count there. On the dump with the one line A \<rightarrow> [B], which interns two
  titles, the reader finds version 2 and node count 0 in the finished file, where the claim
  has version 1 and node count 2.
\<close>

theorem header_patch_example:
  "map_sum id version (convert_and_open zlib_stored [[(str_of ''A'', [str_of ''B''])]]) = Inr 2
   \<and> map_sum id node_count (convert_and_open zlib_stored [[(str_of ''A'', [str_of ''B''])]])
       = Inr 0"
  by (simp add: convert_and_open_def writer_eval_simps reader_open_def load_title_map_def
      eval_simps Let_def)

lemma sort_pairs_strict:
  fixes xs :: "(nat \<times> nat) list"
  assumes "distinct (map fst xs)"
  shows "sorted_wrt (<) (map fst (sort xs))"
proof -
  have d: "distinct xs" and inj: "inj_on fst (set xs)"
    using assms by (simp_all add: distinct_map)
  have "sorted_wrt (<) (sort xs)" using d by (simp add: strict_sorted_iff)
  moreover have "fst x < fst y" if "x \<in> set (sort xs)" "y \<in> set (sort xs)" "x < y" for x y
  proof -
    have "fst x \<le> fst y" using that(3) by (auto simp: less_prod_def)
    moreover have "fst x \<noteq> fst y"
    proof
      assume "fst x = fst y"
      then have "x = y" using inj that(1,2) by (auto dest: inj_onD)
      then show False using that(3) by simp
    qed
    ultimately show ?thesis by simp
  qed
  ultimately have "sorted_wrt (\<lambda>x y. fst x < fst y) (sort xs)"
    by (rule_tac sorted_wrt_mono_rel [where P = "(<)"]) auto
  then show ?thesis by (simp add: sorted_wrt_map)
qed

lemma map_fst_block_index: "map fst (block_index z pos nwe) = map fst nwe"
  by (induction z pos nwe rule: block_index.induct) simp_all

lemma blocks_bytes_append:
  "blocks_bytes z (xs @ ys) = blocks_bytes z xs @ blocks_bytes z ys"
  by (simp add: blocks_bytes_def)

lemma blocks_bytes_Cons:
  "blocks_bytes z ((i, es) # ys) = block_bytes z es @ blocks_bytes z ys"
  by (simp add: blocks_bytes_def)

lemma block_index_append:
  "block_index z pos (pre @ post) =
     block_index z pos pre @ block_index z (pos + length (blocks_bytes z pre)) post"
proof (induction z pos pre rule: block_index.induct)
  case (1 z pos)
  show ?case by (simp add: blocks_bytes_def)
next
  case (2 z pos node_id edge_ids rest)
  then show ?case by (simp add: blocks_bytes_Cons add.assoc)
qed

lemma block_index_member:
  "(i, off) \<in> set (block_index z pos nwe) \<Longrightarrow>
     \<exists>pre es post. nwe = pre @ (i, es) # post \<and> off = pos + length (blocks_bytes z pre)"
proof (induction z pos nwe rule: block_index.induct)
  case (1 z pos)
  then show ?case by simp
next
  case (2 z pos node_id edge_ids rest)
  show ?case
  proof (cases "(i, off) = (node_id, pos)")
    case True
    then have "(node_id, edge_ids) # rest = [] @ (i, edge_ids) # rest
        \<and> off = pos + length (blocks_bytes z [])"
      by (simp add: blocks_bytes_def)
    then show ?thesis by blast
  next
    case False
    then have "(i, off) \<in> set (block_index z (pos + length (block_bytes z edge_ids)) rest)"
      using "2.prems" by auto
    then obtain pre es post where
      r: "rest = pre @ (i, es) # post"
      and o: "off = pos + length (block_bytes z edge_ids) + length (blocks_bytes z pre)"
      using "2.IH" by blast
    have "(node_id, edge_ids) # rest = ((node_id, edge_ids) # pre) @ (i, es) # post
        \<and> off = pos + length (blocks_bytes z ((node_id, edge_ids) # pre))"
      using r o by (simp add: blocks_bytes_Cons)
    then show ?thesis by blast
  qed
qed

lemma block_index_of_member:
  "nwe = pre @ (i, es) # post \<Longrightarrow>
     (i, pos + length (blocks_bytes z pre)) \<in> set (block_index z pos nwe)"
  by (simp add: block_index_append)

lemma slice_block:
  assumes "length hdr = 16"
  shows "slice (hdr @ blocks_bytes z (pre @ (i, es) # post) @ rest)
           (16 + length (blocks_bytes z pre))
           (16 + length (blocks_bytes z pre) + length (block_bytes z es)) = block_bytes z es"
proof -
  let ?p = "hdr @ blocks_bytes z pre"
  have "hdr @ blocks_bytes z (pre @ (i, es) # post) @ rest
      = ?p @ block_bytes z es @ (blocks_bytes z post @ rest)"
    by (simp add: blocks_bytes_append blocks_bytes_Cons)
  moreover have "length ?p = 16 + length (blocks_bytes z pre)" using assms by simp
  ultimately show ?thesis by (simp add: slice_def)
qed

lemma process_item_distinct:
  "distinct (map fst (fst st)) \<Longrightarrow> process_item item st = Inr st'
   \<Longrightarrow> distinct (map fst (fst st'))"
  by (auto simp: process_item_def distinct_update split: prod.splits sum.splits)

lemma first_pass_distinct:
  assumes "first_pass S w = Inr (nwe, w2)"
  shows "distinct (map fst nwe)"
proof -
  have f: "for_each process_item (concat S) ([], w) = Inr (nwe, w2)"
    using assms by (simp add: first_pass_fold)
  have "distinct (map fst (fst (nwe, w2)))"
    by (rule for_each_invariant [OF f, where P = "\<lambda>st. distinct (map fst (fst st))"])
      (use process_item_distinct in auto)
  then show ?thesis by simp
qed

lemma example_store_value:
  "process_jsonl_dump zlib_stored example_dump writer_init =
     Inr \<lparr>outfile = MAGIC @ le_bytes 4 3 @ le_bytes 4 0
            @ [3, 0, 0, 0, 2, 2, 0] @ [2, 0, 0, 0, 1, 0]
            @ index_bytes [(0, 16), (2, 23)] @ le_bytes 8 29,
          mapfile = str_of ''0'' @ [TAB] @ str_of ''A'' @ [LF]
            @ str_of ''1'' @ [TAB] @ str_of ''B'' @ [LF]
            @ str_of ''2'' @ [TAB] @ str_of ''C'' @ [LF],
          node_map = [(str_of ''A'', 0), (str_of ''B'', 1), (str_of ''C'', 2)],
          current_node_id = 3,
          index = [(0, 16), (2, 23)]\<rparr>"
  by (simp add: example_dump_def writer_eval_simps eval_simps Let_def)

lemma example_store_ok:
  "process_jsonl_dump zlib_stored example_dump writer_init = Inr example_store"
  by (simp add: example_store_def example_store_value)

lemma header_after_patch:
  assumes "process_jsonl_dump z S writer_init = Inr w"
  shows "slice (outfile w) 0 8 = MAGIC
       \<and> slice (outfile w) 8 12 = le_bytes 4 (current_node_id w)
       \<and> slice (outfile w) 12 16 = le_bytes 4 0"
proof -
  obtain nwe w2 where fp: "first_pass S header_writer = Inr (nwe, w2)"
    using process_jsonl_dump_first_pass [OF assms] by blast
  note L = process_jsonl_dump_layout [OF assms fp]
  show ?thesis by (simp add: L(1) L(5) slice_def length_MAGIC)
qed

lemma index_region:
  assumes "process_jsonl_dump z S writer_init = Inr w"
  shows "slice (outfile w)
           (le_value (slice (outfile w) (length (outfile w) - 8) (length (outfile w))))
           (length (outfile w) - 8) = index_bytes (sort (index w))"
proof -
  obtain nwe w2 where fp: "first_pass S header_writer = Inr (nwe, w2)"
    using process_jsonl_dump_first_pass [OF assms] by blast
  note L = process_jsonl_dump_layout [OF assms fp]
  let ?hdr = "MAGIC @ le_bytes 4 (current_node_id w2) @ le_bytes 4 0"
  let ?ib = "index_bytes (sort (block_index z 16 nwe))"
  let ?ipos = "16 + length (blocks_bytes z nwe)"
  have hl: "length ?hdr = 16" by (simp add: length_MAGIC)
  have fl: "outfile w = ?hdr @ blocks_bytes z nwe @ ?ib @ le_bytes 8 ?ipos"
    using L(1) by simp
  have tr: "slice (outfile w) (length (outfile w) - 8) (length (outfile w)) = le_bytes 8 ?ipos"
  proof -
    have "outfile w = (?hdr @ blocks_bytes z nwe @ ?ib) @ le_bytes 8 ?ipos" using fl by simp
    then show ?thesis by (simp add: slice_def)
  qed
  have ipv: "le_value (slice (outfile w) (length (outfile w) - 8) (length (outfile w))) = ?ipos"
    using tr le_value_le_bytes_8 [OF L(7)] by simp
  have s2: "slice (outfile w) ?ipos (length (outfile w) - 8) = ?ib"
  proof -
    have "outfile w = (?hdr @ blocks_bytes z nwe) @ ?ib @ le_bytes 8 ?ipos" using fl by simp
    moreover have "length (?hdr @ blocks_bytes z nwe) = ?ipos" using hl by simp
    moreover have "length (outfile w) - 8 - ?ipos = length ?ib" using fl hl by simp
    ultimately show ?thesis by (simp add: slice_def)
  qed
  show ?thesis using s2 ipv by (simp add: L(2))
qed

text \<open>
  Claim C9 (index invariant of a produced file). When the writer finishes, the first pass has
  returned its \<open>nodes_with_edges\<close>, and the index entries the writer
  wrote (the sorted \<open>self.index\<close>, found in the file between \<open>index_pos\<close> and the last 8
  bytes) are strictly ascending by node id, so no id occurs twice, and each entry's offset is
  the position in the file of that node's block: the u32 length of the compressed edge list
  that \<open>nodes_with_edges\<close> has for the node, then the compressed bytes.
\<close>

theorem index_invariant:
  assumes "process_jsonl_dump z S writer_init = Inr w"
  shows "\<exists>nodes_with_edges w2. first_pass S header_writer = Inr (nodes_with_edges, w2)
    \<and> sorted_wrt (<) (map fst (sort (index w)))
    \<and> slice (outfile w)
         (le_value (slice (outfile w) (length (outfile w) - 8) (length (outfile w))))
         (length (outfile w) - 8) = index_bytes (sort (index w))
    \<and> (\<forall>(node_id, off) \<in> set (sort (index w)).
          \<exists>edge_ids. (node_id, edge_ids) \<in> set nodes_with_edges
            \<and> slice (outfile w) off (off + length (block_bytes z edge_ids))
                = block_bytes z edge_ids)"
proof -
  obtain nwe w2 where fp: "first_pass S header_writer = Inr (nwe, w2)"
    using process_jsonl_dump_first_pass [OF assms] by blast
  note L = process_jsonl_dump_layout [OF assms fp]
  let ?hdr = "MAGIC @ le_bytes 4 (current_node_id w2) @ le_bytes 4 0"
  let ?ib = "index_bytes (sort (block_index z 16 nwe))"
  let ?ipos = "16 + length (blocks_bytes z nwe)"
  have hl: "length ?hdr = 16" by (simp add: length_MAGIC)
  have fl: "outfile w = ?hdr @ blocks_bytes z nwe @ ?ib @ le_bytes 8 ?ipos"
    using L(1) by simp
  have d: "distinct (map fst nwe)" by (rule first_pass_distinct [OF fp])
  have s1: "sorted_wrt (<) (map fst (sort (index w)))"
    unfolding L(2) by (rule sort_pairs_strict) (simp add: map_fst_block_index d)
  have tr: "slice (outfile w) (length (outfile w) - 8) (length (outfile w)) = le_bytes 8 ?ipos"
  proof -
    have "outfile w = (?hdr @ blocks_bytes z nwe @ ?ib) @ le_bytes 8 ?ipos" using fl by simp
    then show ?thesis by (simp add: slice_def)
  qed
  have ipv: "le_value (slice (outfile w) (length (outfile w) - 8) (length (outfile w))) = ?ipos"
    using tr le_value_le_bytes_8 [OF L(7)] by simp
  have s2: "slice (outfile w) ?ipos (length (outfile w) - 8) = ?ib"
  proof -
    have "outfile w = (?hdr @ blocks_bytes z nwe) @ ?ib @ le_bytes 8 ?ipos" using fl by simp
    moreover have "length (?hdr @ blocks_bytes z nwe) = ?ipos" using hl by simp
    moreover have "length (outfile w) - 8 - ?ipos = length ?ib" using fl hl by simp
    ultimately show ?thesis by (simp add: slice_def)
  qed
  have s3: "\<exists>edge_ids. (node_id, edge_ids) \<in> set nwe
            \<and> slice (outfile w) off (off + length (block_bytes z edge_ids))
                = block_bytes z edge_ids"
    if "(node_id, off) \<in> set (sort (index w))" for node_id off
  proof -
    have "(node_id, off) \<in> set (block_index z 16 nwe)" using that L(2) by simp
    then obtain pre es post where
      n: "nwe = pre @ (node_id, es) # post" and o: "off = 16 + length (blocks_bytes z pre)"
      using block_index_member by blast
    have "slice (?hdr @ blocks_bytes z (pre @ (node_id, es) # post)
              @ (?ib @ le_bytes 8 ?ipos))
           (16 + length (blocks_bytes z pre))
           (16 + length (blocks_bytes z pre) + length (block_bytes z es)) = block_bytes z es"
      by (rule slice_block [OF hl])
    then have "slice (outfile w) off (off + length (block_bytes z es)) = block_bytes z es"
      using fl n o by simp
    moreover have "(node_id, es) \<in> set nwe" using n by simp
    ultimately show ?thesis by blast
  qed
  have "first_pass S header_writer = Inr (nwe, w2)
    \<and> sorted_wrt (<) (map fst (sort (index w)))
    \<and> slice (outfile w)
         (le_value (slice (outfile w) (length (outfile w) - 8) (length (outfile w))))
         (length (outfile w) - 8) = index_bytes (sort (index w))
    \<and> (\<forall>(node_id, off) \<in> set (sort (index w)).
          \<exists>edge_ids. (node_id, edge_ids) \<in> set nwe
            \<and> slice (outfile w) off (off + length (block_bytes z edge_ids))
                = block_bytes z edge_ids)"
    using s1 s2 s3 ipv fp by (simp add: L(2)) blast
  then show ?thesis by blast
qed

theorem index_invariant_witness:
  "process_jsonl_dump zlib_stored example_dump writer_init = Inr example_store
   \<and> (\<exists>nodes_with_edges w2.
        first_pass example_dump header_writer = Inr (nodes_with_edges, w2)
      \<and> sorted_wrt (<) (map fst (sort (index example_store)))
      \<and> slice (outfile example_store)
           (le_value (slice (outfile example_store) (length (outfile example_store) - 8)
              (length (outfile example_store))))
           (length (outfile example_store) - 8) = index_bytes (sort (index example_store))
      \<and> list_all (\<lambda>(node_id, off).
           list_ex (\<lambda>(n, edge_ids). n = node_id
              \<and> slice (outfile example_store) off
                   (off + length (block_bytes zlib_stored edge_ids))
                  = block_bytes zlib_stored edge_ids)
             nodes_with_edges)
         (sort (index example_store)))"
proof -
  note h = example_store_ok
  obtain nwe w2 where fp: "first_pass example_dump header_writer = Inr (nwe, w2)"
    and a: "sorted_wrt (<) (map fst (sort (index example_store)))"
    and b: "slice (outfile example_store)
         (le_value (slice (outfile example_store) (length (outfile example_store) - 8)
            (length (outfile example_store))))
         (length (outfile example_store) - 8) = index_bytes (sort (index example_store))"
    and c: "\<forall>(node_id, off) \<in> set (sort (index example_store)).
          \<exists>edge_ids. (node_id, edge_ids) \<in> set nwe
            \<and> slice (outfile example_store) off (off + length (block_bytes zlib_stored edge_ids))
                = block_bytes zlib_stored edge_ids"
    using index_invariant [OF h] by blast
  have c': "list_all (\<lambda>(node_id, off).
         list_ex (\<lambda>(n, edge_ids). n = node_id
            \<and> slice (outfile example_store) off (off + length (block_bytes zlib_stored edge_ids))
                = block_bytes zlib_stored edge_ids)
           nwe)
       (sort (index example_store))"
    unfolding list_all_iff list_ex_iff using c by fast
  have "\<exists>nodes_with_edges w2.
        first_pass example_dump header_writer = Inr (nodes_with_edges, w2)
      \<and> sorted_wrt (<) (map fst (sort (index example_store)))
      \<and> slice (outfile example_store)
           (le_value (slice (outfile example_store) (length (outfile example_store) - 8)
              (length (outfile example_store))))
           (length (outfile example_store) - 8) = index_bytes (sort (index example_store))
      \<and> list_all (\<lambda>(node_id, off).
           list_ex (\<lambda>(n, edge_ids). n = node_id
              \<and> slice (outfile example_store) off
                   (off + length (block_bytes zlib_stored edge_ids))
                  = block_bytes zlib_stored edge_ids)
             nodes_with_edges)
         (sort (index example_store))"
    using fp a b c' by blast
  then show ?thesis using h by (intro conjI)
qed

section \<open>The first pass\<close>

lemma wf_header_writer: "wf_writer header_writer"
  by (simp add: wf_writer_def header_writer_def writer_init_def)

lemma map_of_prefix: "map_of xs t = Some i \<Longrightarrow> map_of (xs @ ext) t = Some i"
  by (simp add: map_add_Some_iff)

lemma map_of_prefix_dom: "map_of xs t \<noteq> None \<Longrightarrow> map_of (xs @ ext) t = map_of xs t"
  using map_of_prefix [of xs t _ ext] by auto

lemma intern_wf:
  assumes "wf_writer w" and "intern t w = Inr (i, w')"
  shows "wf_writer w'" and "map_of (node_map w') t = Some i"
    and "\<exists>ext. node_map w' = node_map w @ ext"
proof -
  show "wf_writer w'"
  proof (cases "map_of (node_map w) t")
    case (Some j)
    then show ?thesis using assms by (simp add: intern_def)
  next
    case None
    then have nt: "t \<notin> fst ` set (node_map w)" by (simp add: map_of_eq_None_iff)
    have w': "w' = w\<lparr>node_map := node_map w @ [(t, current_node_id w)],
             mapfile := mapfile w @ str_nat (current_node_id w) @ [TAB] @ t @ [LF],
             current_node_id := current_node_id w + 1\<rparr>"
      using assms(2) None by (auto simp: intern_def split: if_splits)
    show ?thesis using assms(1) nt by (simp add: w' wf_writer_def sidecar_line_def)
  qed
  show "map_of (node_map w') t = Some i"
    using assms(2) by (auto simp: intern_def map_add_Some_iff split: option.splits if_splits)
  show "\<exists>ext. node_map w' = node_map w @ ext"
    using assms(2) by (auto simp: intern_def split: option.splits if_splits)
qed

lemma id_of_prefix:
  "map_of (node_map w) t \<noteq> None \<Longrightarrow> node_map w' = node_map w @ ext \<Longrightarrow> id_of w' t = id_of w t"
  using map_of_prefix_dom [of "node_map w" t ext] by (simp add: id_of_def)

lemma collect_edges_wf:
  assumes "wf_writer w" and "collect_edges ts acc w = Inr (es, w')"
  shows "wf_writer w' \<and> (\<exists>ext. node_map w' = node_map w @ ext)
       \<and> es = acc @ map (id_of w') ts
       \<and> list_all (\<lambda>d. map_of (node_map w') d \<noteq> None) ts"
  using assms
proof (induction ts arbitrary: acc w)
  case Nil
  then show ?case by simp
next
  case (Cons t ts)
  obtain i w1 where iw: "intern t w = Inr (i, w1)"
    and ce: "collect_edges ts (acc @ [i]) w1 = Inr (es, w')"
    using Cons.prems(2) by (auto split: sum.splits)
  note I = intern_wf [OF Cons.prems(1) iw]
  note H = Cons.IH [OF I(1) ce]
  obtain e1 where e1: "node_map w1 = node_map w @ e1" using I(3) by blast
  obtain e2 where e2: "node_map w' = node_map w1 @ e2" using H by blast
  have t': "map_of (node_map w') t = Some i" using I(2) e2 by (simp add: map_of_prefix)
  then have "id_of w' t = i" by (simp add: id_of_def)
  moreover have "node_map w' = node_map w @ (e1 @ e2)" using e1 e2 by simp
  ultimately show ?case using H t' by auto
qed

lemma wf_inj:
  assumes "wf_writer w" and "map_of (node_map w) t = Some i" and "map_of (node_map w) t' = Some i"
  shows "t = t'"
proof -
  have "distinct (map snd (node_map w))" using assms(1) by (simp add: wf_writer_def)
  then have inj: "inj_on snd (set (node_map w))" by (simp add: distinct_map)
  have "(t, i) \<in> set (node_map w)" "(t', i) \<in> set (node_map w)"
    using assms(2,3) by (auto dest: map_of_SomeD)
  then have "(t, i) = (t', i)" using inj_onD [OF inj, of "(t, i)" "(t', i)"] by simp
  then show ?thesis by simp
qed

lemma wf_id_range:
  assumes "wf_writer w" and "map_of (node_map w) t = Some i"
  shows "i < current_node_id w"
proof -
  have "(t, i) \<in> set (node_map w)" using assms(2) by (rule map_of_SomeD)
  then have "i \<in> set (map snd (node_map w))" by force
  moreover have "set (map snd (node_map w)) = set [0..<current_node_id w]"
    using assms(1) by (simp only: wf_writer_def)
  ultimately have "i \<in> set [0..<current_node_id w]" by (simp only:)
  then show ?thesis by simp
qed

lemma last_edges_snoc:
  "last_edges (items @ [(t, ts)]) =
     (if ts \<noteq> [] then (last_edges items)(t \<mapsto> ts) else last_edges items)"
proof (induction items)
  case Nil
  show ?case by (auto simp: fun_eq_iff)
next
  case (Cons a items)
  obtain s ds where a: "a = (s, ds)" by (cases a)
  show ?case using Cons.IH by (auto simp: a fun_eq_iff split: option.splits)
qed

lemma process_item_collected:
  assumes wf: "wf_writer w" and c: "collected items nwe w"
    and p: "process_item (t, ts) (nwe, w) = Inr (nwe', w')"
  shows "wf_writer w' \<and> collected (items @ [(t, ts)]) nwe' w'"
proof -
  obtain i w1 es where iw: "intern t w = Inr (i, w1)"
    and ce': "collect_edges ts [] w1 = Inr (es, w')"
    and nwe': "nwe' = (if es \<noteq> [] then AList.update i es nwe else nwe)"
    using process_item_Inr [OF p] by blast
  note I = intern_wf [OF wf iw]
  define w2 where "w2 = w'"
  have ce: "collect_edges ts [] w1 = Inr (es, w2)" using ce' by (simp add: w2_def)
  have C: "wf_writer w2" "\<exists>ext. node_map w2 = node_map w1 @ ext" "es = map (id_of w2) ts"
    "list_all (\<lambda>d. map_of (node_map w2) d \<noteq> None) ts"
    using collect_edges_wf [OF I(1) ce] by simp_all
  have w': "w' = w2" by (simp add: w2_def)
  obtain e1 where e1: "node_map w1 = node_map w @ e1" using I(3) by blast
  obtain e2 where e2: "node_map w2 = node_map w1 @ e2" using C(2) by blast
  have ext: "node_map w2 = node_map w @ (e1 @ e2)" using e1 e2 by simp
  have F1: "map_of (node_map w2) t = Some i" using I(2) e2 by (simp add: map_of_prefix)
  have F2: "map_of (node_map w2) s = map_of (node_map w) s \<and> id_of w2 s = id_of w s"
    if "map_of (node_map w) s \<noteq> None" for s
    using that ext map_of_prefix_dom [of "node_map w" s "e1 @ e2"] by (simp add: id_of_def)
  have F3: "es \<noteq> [] \<longleftrightarrow> ts \<noteq> []" using C(3) by simp
  have le: "last_edges (items @ [(t, ts)]) =
      (if ts \<noteq> [] then (last_edges items)(t \<mapsto> ts) else last_edges items)"
    by (rule last_edges_snoc)
  have c1: "distinct (map fst nwe)"
    and c2: "\<And>s ds. last_edges items s = Some ds \<Longrightarrow>
            map_of (node_map w) s \<noteq> None \<and> list_all (\<lambda>d. map_of (node_map w) d \<noteq> None) ds
            \<and> map_of nwe (id_of w s) = Some (map (id_of w) ds)"
    and c3: "\<And>j es'. map_of nwe j = Some es' \<Longrightarrow>
            \<exists>s. map_of (node_map w) s = Some j \<and> last_edges items s \<noteq> None"
    using c by (simp_all add: collected_def)
  have g1: "distinct (map fst nwe')" using c1 by (simp add: nwe' distinct_update)
  have old: "map_of (node_map w2) s \<noteq> None
        \<and> list_all (\<lambda>d. map_of (node_map w2) d \<noteq> None) ds
        \<and> map_of nwe (id_of w2 s) = Some (map (id_of w2) ds)"
    if "last_edges items s = Some ds" for s ds
  proof -
    note K = c2 [OF that]
    have a: "map_of (node_map w2) s \<noteq> None" using K F2 [of s] by simp
    have dd: "\<forall>d \<in> set ds. map_of (node_map w) d \<noteq> None" using K by (simp add: list_all_iff)
    then have b: "list_all (\<lambda>d. map_of (node_map w2) d \<noteq> None) ds"
      using F2 by (simp add: list_all_iff)
    have "map (id_of w2) ds = map (id_of w) ds" using dd F2 by simp
    moreover have "id_of w2 s = id_of w s" using K F2 [of s] by simp
    ultimately show ?thesis using a b K by simp
  qed
  have g2: "map_of (node_map w2) s \<noteq> None
        \<and> list_all (\<lambda>d. map_of (node_map w2) d \<noteq> None) ds
        \<and> map_of nwe' (id_of w2 s) = Some (map (id_of w2) ds)"
    if h: "last_edges (items @ [(t, ts)]) s = Some ds" for s ds
  proof (cases "ts \<noteq> [] \<and> s = t")
    case True
    then have "ds = ts" using h le by simp
    moreover have "id_of w2 t = i" using F1 by (simp add: id_of_def)
    ultimately show ?thesis using True F1 F3 C(3,4) by (simp add: nwe' update_conv')
  next
    case False
    then have h': "last_edges items s = Some ds" using h le by (auto split: if_splits)
    note O = old [OF h']
    show ?thesis
    proof (cases "ts \<noteq> []")
      case True
      then have st: "s \<noteq> t" using False by simp
      have "map_of (node_map w2) s = Some (id_of w2 s)" using O by (auto simp: id_of_def)
      then have "id_of w2 s \<noteq> i" using wf_inj [OF C(1) _ F1, of s] st by auto
      then show ?thesis using O True F3 by (simp add: nwe' update_conv')
    next
      case False
      then show ?thesis using O F3 by (simp add: nwe')
    qed
  qed
  have g3: "\<exists>s. map_of (node_map w2) s = Some j \<and> last_edges (items @ [(t, ts)]) s \<noteq> None"
    if h: "map_of nwe' j = Some es'" for j es'
  proof (cases "ts \<noteq> [] \<and> j = i")
    case True
    then have "last_edges (items @ [(t, ts)]) t \<noteq> None" by (simp add: le)
    then show ?thesis using True F1 by blast
  next
    case False
    then have "map_of nwe j = Some es'"
      using h F3 by (auto simp: nwe' update_conv' split: if_splits)
    then obtain s where s: "map_of (node_map w) s = Some j" "last_edges items s \<noteq> None"
      using c3 by blast
    have "map_of (node_map w2) s = Some j" using s(1) ext by (simp add: map_of_prefix)
    moreover have "last_edges (items @ [(t, ts)]) s \<noteq> None" using s(2) by (simp add: le)
    ultimately show ?thesis by blast
  qed
  have "collected (items @ [(t, ts)]) nwe' w2"
    unfolding collected_def using g1 g2 g3 by blast
  then show ?thesis using C(1) w' by simp
qed

lemma for_each_process_item_collected:
  "wf_writer w \<Longrightarrow> collected seen nwe w
   \<Longrightarrow> for_each process_item items (nwe, w) = Inr (nwe', w')
   \<Longrightarrow> wf_writer w' \<and> collected (seen @ items) nwe' w'"
proof (induction items arbitrary: seen nwe w)
  case Nil
  then show ?case by simp
next
  case (Cons a items)
  obtain t ts where a: "a = (t, ts)" by (cases a)
  obtain n1 w1 where p: "process_item (t, ts) (nwe, w) = Inr (n1, w1)"
    and f: "for_each process_item items (n1, w1) = Inr (nwe', w')"
    using Cons.prems(3) by (auto simp: a split: sum.splits)
  note P = process_item_collected [OF Cons.prems(1,2) p]
  show ?case using Cons.IH [OF conjunct1 [OF P] conjunct2 [OF P] f] by (simp add: a)
qed

lemma first_pass_collected:
  assumes "first_pass S header_writer = Inr (nwe, w2)"
  shows "wf_writer w2" and "collected (concat S) nwe w2"
proof -
  have c0: "collected [] [] header_writer" by (simp add: collected_def)
  have f: "for_each process_item (concat S) ([], header_writer) = Inr (nwe, w2)"
    using assms by (simp add: first_pass_fold)
  show "wf_writer w2" and "collected (concat S) nwe w2"
    using for_each_process_item_collected [OF wf_header_writer c0 f] by simp_all
qed

lemma filter_key_distinct:
  "distinct (map fst xs) \<Longrightarrow> (i, v) \<in> set xs \<Longrightarrow> filter (\<lambda>e. fst e = i) xs = [(i, v)]"
proof (induction xs)
  case Nil
  then show ?case by simp
next
  case (Cons a xs)
  show ?case
  proof (cases "a = (i, v)")
    case True
    then have "i \<notin> fst ` set xs" using Cons.prems(1) by simp
    then have "filter (\<lambda>e. fst e = i) xs = []" by (auto simp: filter_empty_conv)
    then show ?thesis using True by simp
  next
    case False
    then have m: "(i, v) \<in> set xs" using Cons.prems(2) by simp
    then have "i \<in> fst ` set xs" by force
    then have "fst a \<noteq> i" using Cons.prems(1) by auto
    then show ?thesis using Cons.IH m Cons.prems(1) by simp
  qed
qed

lemma id_of_cong: "node_map w = node_map w' \<Longrightarrow> id_of w = id_of w'"
  by (simp add: id_of_def fun_eq_iff)

lemma stored_block:
  assumes d: "process_jsonl_dump z S writer_init = Inr w"
    and fp: "first_pass S header_writer = Inr (nwe, w2)"
    and m: "map_of nwe i = Some es"
  shows "\<exists>off. (i, off) \<in> set (index w) \<and> filter (\<lambda>e. fst e = i) (index w) = [(i, off)]
       \<and> slice (outfile w) off (off + length (block_bytes z es)) = block_bytes z es"
proof -
  note L = process_jsonl_dump_layout [OF d fp]
  have dn: "distinct (map fst nwe)" by (rule first_pass_distinct [OF fp])
  have "(i, es) \<in> set nwe" using m by (rule map_of_SomeD)
  then obtain pre post where n: "nwe = pre @ (i, es) # post" by (auto dest: split_list)
  let ?off = "16 + length (blocks_bytes z pre)"
  let ?hdr = "MAGIC @ le_bytes 4 (current_node_id w2) @ le_bytes 4 0"
  have mem: "(i, ?off) \<in> set (index w)"
    unfolding L(2) by (rule block_index_of_member [OF n])
  have di: "distinct (map fst (index w))" using dn by (simp add: L(2) map_fst_block_index)
  have f: "filter (\<lambda>e. fst e = i) (index w) = [(i, ?off)]"
    by (rule filter_key_distinct [OF di mem])
  have hl: "length ?hdr = 16" by (simp add: length_MAGIC)
  have "slice (?hdr @ blocks_bytes z (pre @ (i, es) # post)
            @ (index_bytes (sort (block_index z 16 nwe))
               @ le_bytes 8 (16 + length (blocks_bytes z nwe))))
         ?off (?off + length (block_bytes z es)) = block_bytes z es"
    by (rule slice_block [OF hl])
  then have "slice (outfile w) ?off (?off + length (block_bytes z es)) = block_bytes z es"
    using L(1) n by simp
  then show ?thesis using mem f by blast
qed

lemma example_last_edges:
  "last_edges (concat example_dump) (str_of ''A'') = Some [str_of ''C'', str_of ''C'']"
  by (simp add: example_dump_def str_of_def)

section \<open>Reading a produced store\<close>

lemma reader_open_layout:
  assumes "slice p 0 8 = MAGIC" and "16 \<le> length p" and "length p < 2 ^ 64"
    and "list_all (\<lambda>(i, off). i < 2 ^ 64 \<and> off < 2 ^ 64) es"
  shows "\<exists>r. reader_open (p @ index_bytes es @ le_bytes 8 (length p)) m = Inr r
       \<and> mmap r = p @ index_bytes es @ le_bytes 8 (length p) \<and> rindex r = es"
proof -
  let ?f = "p @ index_bytes es @ le_bytes 8 (length p)"
  have m: "slice ?f 0 8 = MAGIC" using assms(1,2) by (simp add: slice_def)
  have l: "16 \<le> length ?f" using assms(2) by simp
  have "?f = (p @ index_bytes es) @ le_bytes 8 (length p)" by simp
  then have "slice ?f (length ?f - 8) (length ?f) = le_bytes 8 (length p)"
    by (simp add: slice_def)
  then have ip: "le_value (slice ?f (length ?f - 8) (length ?f)) = length p"
    using le_value_le_bytes_8 [OF assms(3)] by simp
  have "load_index (p @ index_bytes es @ [] @ le_bytes 8 (length p)) (length p) = es"
    by (rule load_index_layout [OF assms(4)]) simp_all
  then have li: "load_index ?f (length p) = es" by simp
  show ?thesis
    by (simp only: reader_open_ok [OF m l] ip li reader.select_convs sum.inject simp_thms ex_simps)
qed

lemma bsearch_hit:
  "sorted_wrt (<) (map fst idx) \<Longrightarrow> 0 \<le> left \<Longrightarrow> right < int (length idx)
   \<Longrightarrow> left \<le> int k \<Longrightarrow> int k \<le> right \<Longrightarrow> idx ! k = (node_id, off)
   \<Longrightarrow> bsearch idx node_id left right = Some off"
proof (induction idx node_id left right rule: bsearch.induct)
  case (1 idx node_id left right)
  let ?mid = "(left + right) div 2"
  have lr: "left \<le> right" using "1.prems"(4,5) by simp
  have m: "left \<le> ?mid" "?mid \<le> right" using lr by auto
  have mlen: "nat ?mid < length idx" using m "1.prems"(2,3) by auto
  have klen: "k < length idx" using "1.prems"(3,5) by auto
  have mono: "fst (idx ! a) < fst (idx ! b)" if "a < b" "b < length idx" for a b
    using "1.prems"(1) that by (simp add: sorted_wrt_iff_nth_less)
  have fk: "fst (idx ! k) = node_id" using "1.prems"(6) by simp
  consider (eq) "fst (idx ! nat ?mid) = node_id"
    | (lt) "fst (idx ! nat ?mid) \<noteq> node_id" "fst (idx ! nat ?mid) < node_id"
    | (gt) "fst (idx ! nat ?mid) \<noteq> node_id" "\<not> fst (idx ! nat ?mid) < node_id"
    by blast
  then show ?case
  proof cases
    case eq
    have "nat ?mid = k"
    proof (rule ccontr)
      assume "nat ?mid \<noteq> k"
      then consider "nat ?mid < k" | "k < nat ?mid" by linarith
      then show False
      proof cases
        case 1
        then show False using mono [OF 1 klen] eq fk by simp
      next
        case 2
        then show False using mono [OF 2 mlen] eq fk by simp
      qed
    qed
    then have "snd (idx ! nat ?mid) = off" using "1.prems"(6) by simp
    then show ?thesis using lr eq by (subst bsearch.simps) (simp add: Let_def)
  next
    case lt
    have "nat ?mid < k"
    proof (rule ccontr)
      assume "\<not> nat ?mid < k"
      then have "k = nat ?mid \<or> k < nat ?mid" by linarith
      then show False using mono [of k "nat ?mid"] mlen lt fk by auto
    qed
    then have k1: "?mid + 1 \<le> int k" by linarith
    have m0: "0 \<le> ?mid + 1" using m "1.prems"(2) by simp
    have "bsearch idx node_id (?mid + 1) right = Some off"
      by (rule "1.IH"(1) [OF lr refl refl lt(1) lt(2) "1.prems"(1) m0 "1.prems"(3) k1
            "1.prems"(5,6)])
    then show ?thesis using lr lt by (subst bsearch.simps) (simp add: Let_def)
  next
    case gt
    have "k < nat ?mid"
    proof (rule ccontr)
      assume "\<not> k < nat ?mid"
      then have "k = nat ?mid \<or> nat ?mid < k" by linarith
      then show False using mono [of "nat ?mid" k] klen gt fk by auto
    qed
    then have k1: "int k \<le> ?mid - 1" by linarith
    have m1: "?mid - 1 < int (length idx)" using m "1.prems"(3) by simp
    have "bsearch idx node_id left (?mid - 1) = Some off"
      by (rule "1.IH"(2) [OF lr refl refl gt(1) gt(2) "1.prems"(1,2) m1 "1.prems"(4) k1
            "1.prems"(6)])
    then show ?thesis using lr gt by (subst bsearch.simps) (simp add: Let_def)
  qed
qed

lemma find_block_hit:
  assumes "sorted_wrt (<) (map fst (rindex r))" and "(node_id, off) \<in> set (rindex r)"
  shows "find_block r node_id = Inr (Some off)"
proof -
  obtain k where k: "k < length (rindex r)" "rindex r ! k = (node_id, off)"
    using assms(2) by (auto simp: in_set_conv_nth)
  have ne: "rindex r \<noteq> []" using k(1) by auto
  have "bsearch (rindex r) node_id 0 (int (length (rindex r)) - 1) = Some off"
    by (rule bsearch_hit [OF assms(1) _ _ _ _ k(2)]) (use k(1) in simp_all)
  then show ?thesis using ne by (simp add: find_block_def)
qed

lemma slice_split:
  assumes "slice f a (a + (n + m)) = x @ y" and "length x = n" and "length y = m"
  shows "slice f a (a + n) = x" and "slice f (a + n) (a + n + m) = y"
proof -
  have t: "take (n + m) (drop a f) = x @ y" using assms(1) by (simp add: slice_def)
  have "take n (take (n + m) (drop a f)) = take n (x @ y)" by (simp only: t)
  then show "slice f a (a + n) = x" using assms(2) by (simp add: slice_def min_def)
  have "drop n (take (n + m) (drop a f)) = drop n (x @ y)" by (simp only: t)
  then have "take m (drop n (drop a f)) = y" using assms(2) by (simp add: drop_take)
  then show "slice f (a + n) (a + n + m) = y" by (simp add: slice_def add.commute)
qed

lemma last_edges_mem: "last_edges items t = Some ds \<Longrightarrow> (t, ds) \<in> set items \<and> ds \<noteq> []"
proof (induction items)
  case Nil
  then show ?case by simp
next
  case (Cons a items)
  obtain s d where a: "a = (s, d)" by (cases a)
  show ?case using Cons by (auto simp: a split: option.splits if_splits)
qed

lemma last_edges_ex:
  "list_ex (\<lambda>(src, dsts). dsts \<noteq> []) items \<Longrightarrow> \<exists>t ds. last_edges items t = Some ds"
proof (induction items)
  case Nil
  then show ?case by simp
next
  case (Cons a items)
  obtain s d where a: "a = (s, d)" by (cases a)
  show ?case
  proof (cases "list_ex (\<lambda>(src, dsts). dsts \<noteq> []) items")
    case True
    then obtain t ds where "last_edges items t = Some ds" using Cons.IH by blast
    then have "last_edges (a # items) t = Some ds" by (simp add: a)
    then show ?thesis by blast
  next
    case False
    then have "d \<noteq> []" using Cons.prems by (simp add: a)
    then have "last_edges (a # items) s \<noteq> None" by (simp add: a split: option.splits)
    then show ?thesis by auto
  qed
qed

lemma zlib_stored_roundtrip: "zlib_roundtrip zlib_stored"
  by (simp add: zlib_roundtrip_def zlib_stored_def)

lemma get_neighbors_block:
  assumes z: "zlib_roundtrip z"
    and s: "sorted_wrt (<) (map fst (rindex r))" and m: "(i, off) \<in> set (rindex r)"
    and b: "slice (mmap r) off (off + length (block_bytes z es)) = block_bytes z es"
    and c32: "length (compress z (encode_edges es)) < 2 ^ 32"
    and e64: "list_all (\<lambda>x. x < 2 ^ 64) es" and l64: "length es < 2 ^ 64"
  shows "get_neighbors z r i = Inr (sort es)"
proof -
  let ?c = "compress z (encode_edges es)"
  have fb: "find_block r i = Inr (Some off)" by (rule find_block_hit [OF s m])
  have b': "slice (mmap r) off (off + (4 + length ?c)) = le_bytes 4 (length ?c) @ ?c"
    using b by (simp add: block_bytes_def)
  have s1: "slice (mmap r) off (off + 4) = le_bytes 4 (length ?c)"
    by (rule slice_split(1) [OF b']) simp_all
  have s2: "slice (mmap r) (off + 4) (off + 4 + length ?c) = ?c"
    by (rule slice_split(2) [OF b']) simp_all
  have u: "unpack_I (slice (mmap r) off (off + 4)) = Inr (length ?c)"
    by (simp add: s1 unpack_I_def le_value_le_bytes_4 [OF c32])
  have d: "decompress z ?c = Inr (encode_edges es)" using z by (simp add: zlib_roundtrip_def)
  have db: "decode_block (encode_edges es) = Inr (sort es)"
    using verify_decode_encode_edges [OF e64 l64, of "[]"]
    by (simp add: decode_block_eq_verify_decode)
  show ?thesis by (simp add: get_neighbors_def fb u s2 d db)
qed

text \<open>
  Claim C1 (end-to-end round trip), as the code has it. Let zlib decompress what it compressed,
  let the dump have at least one record with destinations, every destination list shorter
  than \<open>2 ^ 64\<close>, and let the writer finish. Then the reader opens the two files, and for
  every interned title \<open>t\<close> with id \<open>i\<close>
  in the writer's \<open>node_map\<close>, \<open>get_neighbors\<close> of \<open>i\<close> returns the ids of the destinations of
  the last record for \<open>t\<close> that has destinations, sorted and not de-duplicated, and the empty
  list when \<open>t\<close> has no such record. Earlier records of the same source are not merged in.
\<close>

theorem roundtrip_neighbors:
  assumes z: "zlib_roundtrip z"
    and d: "process_jsonl_dump z S writer_init = Inr w"
    and ex: "list_ex (\<lambda>(src, dsts). dsts \<noteq> []) (concat S)"
    and len: "list_all (\<lambda>(src, dsts). length dsts < 2 ^ 64) (concat S)"
    and t: "map_of (node_map w) t = Some i"
  shows "\<exists>r. reader_open (outfile w) (mapfile w) = Inr r
     \<and> get_neighbors z r i =
         Inr (case last_edges (concat S) t of None \<Rightarrow> [] | Some ds \<Rightarrow> sort (map (id_of w) ds))"
proof -
  obtain nwe w2 where fp: "first_pass S header_writer = Inr (nwe, w2)"
    using process_jsonl_dump_first_pass [OF d] by blast
  note L = process_jsonl_dump_layout [OF d fp]
  note C = first_pass_collected [OF fp]
  have io: "id_of w = id_of w2" by (rule id_of_cong [OF L(3)])
  have t2: "map_of (node_map w2) t = Some i" using t L(3) by simp
  have c2: "\<And>s ds. last_edges (concat S) s = Some ds \<Longrightarrow>
            map_of (node_map w2) s \<noteq> None \<and> list_all (\<lambda>d. map_of (node_map w2) d \<noteq> None) ds
            \<and> map_of nwe (id_of w2 s) = Some (map (id_of w2) ds)"
    and c3: "\<And>j es'. map_of nwe j = Some es' \<Longrightarrow>
            \<exists>s. map_of (node_map w2) s = Some j \<and> last_edges (concat S) s \<noteq> None"
    using C(2) by (simp_all add: collected_def)
  let ?p = "MAGIC @ le_bytes 4 (current_node_id w2) @ le_bytes 4 0 @ blocks_bytes z nwe"
  let ?es = "sort (block_index z 16 nwe)"
  have pl: "length ?p = 16 + length (blocks_bytes z nwe)" by (simp add: length_MAGIC)
  have fl: "outfile w = ?p @ index_bytes ?es @ le_bytes 8 (length ?p)"
    using L(1) pl by simp
  have "\<exists>r. reader_open (?p @ index_bytes ?es @ le_bytes 8 (length ?p)) (mapfile w) = Inr r
       \<and> mmap r = ?p @ index_bytes ?es @ le_bytes 8 (length ?p) \<and> rindex r = ?es"
  proof (rule reader_open_layout)
    show "slice ?p 0 8 = MAGIC" by (simp add: slice_def length_MAGIC)
    show "16 \<le> length ?p" by (simp add: length_MAGIC)
    show "length ?p < 2 ^ 64" using L(7) pl by simp
    show "list_all (\<lambda>(i, off). i < 2 ^ 64 \<and> off < 2 ^ 64) ?es" by (rule L(8))
  qed
  then obtain r where r: "reader_open (outfile w) (mapfile w) = Inr r"
    and mm: "mmap r = outfile w" and ri: "rindex r = sort (index w)"
    using fl L(2) by auto
  have dn: "distinct (map fst nwe)" by (rule first_pass_distinct [OF fp])
  have srt: "sorted_wrt (<) (map fst (rindex r))"
    unfolding ri L(2) by (rule sort_pairs_strict) (simp add: map_fst_block_index dn)
  have "get_neighbors z r i =
         Inr (case last_edges (concat S) t of None \<Rightarrow> [] | Some ds \<Rightarrow> sort (map (id_of w) ds))"
  proof (cases "last_edges (concat S) t")
    case None
    obtain t0 ds0 where "last_edges (concat S) t0 = Some ds0" using last_edges_ex [OF ex] by blast
    then have "map_of nwe (id_of w2 t0) \<noteq> None" using c2 by simp
    then have "nwe \<noteq> []" by auto
    then have "block_index z 16 nwe \<noteq> []" by (cases nwe) auto
    then have ne: "rindex r \<noteq> []" using ri L(2) by (auto simp: sort_key_id_if_sorted dest: arg_cong [where f = length])
    have "i \<notin> fst ` set nwe"
    proof
      assume "i \<in> fst ` set nwe"
      then obtain es' where "map_of nwe i = Some es'"
        using map_of_eq_None_iff [of nwe i] by (cases "map_of nwe i") auto
      then obtain s where s: "map_of (node_map w2) s = Some i" "last_edges (concat S) s \<noteq> None"
        using c3 by blast
      have "s = t" by (rule wf_inj [OF C(1) s(1) t2])
      then show False using s(2) None by simp
    qed
    moreover have "set (map fst (block_index z 16 nwe)) = set (map fst nwe)"
      by (simp only: map_fst_block_index)
    then have "fst ` set (block_index z 16 nwe) = fst ` set nwe" by (simp only: set_map)
    ultimately have "i \<notin> fst ` set (rindex r)" by (simp add: ri L(2))
    then have "find_block r i = Inr None" by (rule find_block_miss [OF ne])
    then show ?thesis using None by (simp add: get_neighbors_def)
  next
    case (Some ds)
    note K = c2 [OF Some]
    let ?ids = "map (id_of w2) ds"
    have it: "id_of w2 t = i" using t2 by (simp add: id_of_def)
    have m: "map_of nwe i = Some ?ids" using K it by simp
    obtain off where o: "(i, off) \<in> set (index w)"
      and b: "slice (outfile w) off (off + length (block_bytes z ?ids)) = block_bytes z ?ids"
      using stored_block [OF d fp m] by blast
    have mem: "(i, off) \<in> set (rindex r)" using o ri by simp
    have "(i, ?ids) \<in> set nwe" using m by (rule map_of_SomeD)
    then have c32: "length (compress z (encode_edges ?ids)) < 2 ^ 32"
      using L(9) by (auto simp: list_all_iff)
    have "id_of w2 x < 2 ^ 64" if "x \<in> set ds" for x
    proof -
      have "map_of (node_map w2) x \<noteq> None" using K that by (simp add: list_all_iff)
      then have "map_of (node_map w2) x = Some (id_of w2 x)" by (auto simp: id_of_def)
      then have "id_of w2 x < current_node_id w2" by (rule wf_id_range [OF C(1)])
      also have "\<dots> < 2 ^ 32" by (rule L(6))
      also have "(2::nat) ^ 32 < 2 ^ 64" by simp
      finally show ?thesis .
    qed
    then have e64: "list_all (\<lambda>x. x < 2 ^ 64) ?ids" by (simp add: list_all_iff)
    have "(t, ds) \<in> set (concat S)" using last_edges_mem [OF Some] by simp
    then have "length ds < 2 ^ 64" using len by (auto simp: list_all_iff)
    then have l64: "length ?ids < 2 ^ 64" by simp
    have "get_neighbors z r i = Inr (sort ?ids)"
      by (rule get_neighbors_block [OF z srt mem _ c32 e64 l64]) (simp add: mm b)
    then show ?thesis using Some io by simp
  qed
  then show ?thesis using r by blast
qed

lemma example_node_map:
  "node_map example_store = [(str_of ''A'', 0), (str_of ''B'', 1), (str_of ''C'', 2)]"
  by (simp add: example_store_def example_store_value)

theorem roundtrip_neighbors_witness:
  "zlib_roundtrip zlib_stored
   \<and> process_jsonl_dump zlib_stored example_dump writer_init = Inr example_store
   \<and> list_ex (\<lambda>(src, dsts). dsts \<noteq> []) (concat example_dump)
   \<and> list_all (\<lambda>(src, dsts). length dsts < 2 ^ 64) (concat example_dump)
   \<and> map_of (node_map example_store) (str_of ''A'') = Some 0
   \<and> (\<exists>r. reader_open (outfile example_store) (mapfile example_store) = Inr r
        \<and> get_neighbors zlib_stored r 0 = Inr [2, 2])"
proof -
  have ex: "list_ex (\<lambda>(src, dsts). dsts \<noteq> []) (concat example_dump)"
    by (simp add: example_dump_def)
  have len: "list_all (\<lambda>(src, dsts). length dsts < 2 ^ 64) (concat example_dump)"
    by (simp add: example_dump_def)
  have t: "map_of (node_map example_store) (str_of ''A'') = Some 0"
    by (simp add: example_node_map str_of_def)
  have ids: "sort (map (id_of example_store) [str_of ''C'', str_of ''C'']) = [2, 2]"
    by (simp add: id_of_def example_node_map str_of_def)
  have "\<exists>r. reader_open (outfile example_store) (mapfile example_store) = Inr r
        \<and> get_neighbors zlib_stored r 0 = Inr [2, 2]"
    using roundtrip_neighbors [OF zlib_stored_roundtrip example_store_ok ex len t]
    by (simp only: example_last_edges option.case ids)
  then show ?thesis using zlib_stored_roundtrip example_store_ok ex len t by (intro conjI)
qed

text \<open>
  The claim as stated fails on a dump in which no record has destinations: for the one record
  A \<rightarrow> [] the store has no blocks, and the neighbours of node 0, the id of A, are not the empty
  list: the query raises the ValueError of \<open>find_block\<close>.
\<close>

theorem roundtrip_counterexample:
  "convert_and_query zlib_stored [[(str_of ''A'', [])]] 0 = Inl IndexEmpty"
  by (simp add: convert_and_query_def writer_eval_simps get_neighbors_def find_block_def
      reader_open_def load_title_map_def eval_simps Let_def)

section \<open>A source that occurs in several records\<close>

lemma produced_store_reader:
  assumes d: "process_jsonl_dump z S writer_init = Inr w"
  shows "\<exists>r. reader_open (outfile w) (mapfile w) = Inr r
       \<and> mmap r = outfile w \<and> rindex r = sort (index w)
       \<and> sorted_wrt (<) (map fst (rindex r))"
proof -
  obtain nwe w2 where fp: "first_pass S header_writer = Inr (nwe, w2)"
    using process_jsonl_dump_first_pass [OF d] by blast
  note L = process_jsonl_dump_layout [OF d fp]
  let ?p = "MAGIC @ le_bytes 4 (current_node_id w2) @ le_bytes 4 0 @ blocks_bytes z nwe"
  let ?es = "sort (block_index z 16 nwe)"
  have pl: "length ?p = 16 + length (blocks_bytes z nwe)" by (simp add: length_MAGIC)
  have fl: "outfile w = ?p @ index_bytes ?es @ le_bytes 8 (length ?p)"
    using L(1) pl by simp
  have "\<exists>r. reader_open (?p @ index_bytes ?es @ le_bytes 8 (length ?p)) (mapfile w) = Inr r
       \<and> mmap r = ?p @ index_bytes ?es @ le_bytes 8 (length ?p) \<and> rindex r = ?es"
  proof (rule reader_open_layout)
    show "slice ?p 0 8 = MAGIC" by (simp add: slice_def length_MAGIC)
    show "16 \<le> length ?p" by (simp add: length_MAGIC)
    show "length ?p < 2 ^ 64" using L(7) pl by simp
    show "list_all (\<lambda>(i, off). i < 2 ^ 64 \<and> off < 2 ^ 64) ?es" by (rule L(8))
  qed
  then obtain r where r: "reader_open (outfile w) (mapfile w) = Inr r"
    and mm: "mmap r = outfile w" and ri: "rindex r = sort (index w)"
    using fl L(2) by auto
  have dn: "distinct (map fst nwe)" by (rule first_pass_distinct [OF fp])
  have srt: "sorted_wrt (<) (map fst (rindex r))"
    unfolding ri L(2) by (rule sort_pairs_strict) (simp add: map_fst_block_index dn)
  show ?thesis using r mm ri srt by blast
qed

text \<open>
  Claim C10 (a source title that occurs in several records). When the writer finishes and
  \<open>ds\<close> is the destination list of the last record for the title \<open>t\<close> that has
  destinations, then \<open>nodes_with_edges\<close> holds under the id of \<open>t\<close> the ids of \<open>ds\<close> and
  nothing of the earlier records, and the writer's index has exactly one entry for that id.
  The reader opens the produced files, the index region of the file (from the \<open>index_pos\<close> of
  its last 8 bytes up to them) holds the index the reader loads, that index has exactly one
  entry for that id, the same one, and the file holds at that entry's offset the block of the
  ids of \<open>ds\<close>. When zlib decompresses what it compressed and \<open>ds\<close> is shorter than \<open>2 ^ 64\<close>,
  \<open>get_neighbors\<close> of that id returns the ids of \<open>ds\<close>, sorted, and no id of an earlier
  record.
\<close>

theorem last_record_wins:
  assumes "process_jsonl_dump z S writer_init = Inr w"
    and "last_edges (concat S) t = Some ds"
  shows "\<exists>i off r nodes_with_edges w2. map_of (node_map w) t = Some i
     \<and> first_pass S header_writer = Inr (nodes_with_edges, w2)
     \<and> map_of nodes_with_edges i = Some (map (id_of w) ds)
     \<and> filter (\<lambda>e. fst e = i) (index w) = [(i, off)]
     \<and> reader_open (outfile w) (mapfile w) = Inr r
     \<and> slice (outfile w)
           (le_value (slice (outfile w) (length (outfile w) - 8) (length (outfile w))))
           (length (outfile w) - 8) = index_bytes (rindex r)
     \<and> filter (\<lambda>e. fst e = i) (rindex r) = [(i, off)]
     \<and> slice (outfile w) off (off + length (block_bytes z (map (id_of w) ds)))
         = block_bytes z (map (id_of w) ds)
     \<and> (zlib_roundtrip z \<and> length ds < 2 ^ 64
          \<longrightarrow> get_neighbors z r i = Inr (sort (map (id_of w) ds)))"
proof -
  obtain nwe w2 where fp: "first_pass S header_writer = Inr (nwe, w2)"
    using process_jsonl_dump_first_pass [OF assms(1)] by blast
  note L = process_jsonl_dump_layout [OF assms(1) fp]
  note C = first_pass_collected [OF fp]
  have io: "id_of w = id_of w2" by (rule id_of_cong [OF L(3)])
  let ?ids = "map (id_of w2) ds"
  have k: "map_of (node_map w2) t \<noteq> None"
    and kd: "list_all (\<lambda>d. map_of (node_map w2) d \<noteq> None) ds"
    and m: "map_of nwe (id_of w2 t) = Some ?ids"
    using C(2) assms(2) by (simp_all add: collected_def)
  have t: "map_of (node_map w) t = Some (id_of w t)" using k L(3) by (auto simp: id_of_def)
  obtain off where o: "(id_of w2 t, off) \<in> set (index w)"
    and f: "filter (\<lambda>e. fst e = id_of w2 t) (index w) = [(id_of w2 t, off)]"
    and b: "slice (outfile w) off (off + length (block_bytes z ?ids)) = block_bytes z ?ids"
    using stored_block [OF assms(1) fp m] by auto
  obtain r where r: "reader_open (outfile w) (mapfile w) = Inr r"
    and mm: "mmap r = outfile w" and ri: "rindex r = sort (index w)"
    and srt: "sorted_wrt (<) (map fst (rindex r))"
    using produced_store_reader [OF assms(1)] by blast
  have mem: "(id_of w2 t, off) \<in> set (rindex r)" using o ri by simp
  have di: "distinct (map fst (rindex r))" using srt by (simp only: strict_sorted_iff)
  have fr: "filter (\<lambda>e. fst e = id_of w2 t) (rindex r) = [(id_of w2 t, off)]"
    by (rule filter_key_distinct [OF di mem])
  have g: "get_neighbors z r (id_of w2 t) = Inr (sort ?ids)"
    if z: "zlib_roundtrip z" and len: "length ds < 2 ^ 64"
  proof -
    have "(id_of w2 t, ?ids) \<in> set nwe" using m by (rule map_of_SomeD)
    then have c32: "length (compress z (encode_edges ?ids)) < 2 ^ 32"
      using L(9) by (auto simp: list_all_iff)
    have "id_of w2 x < 2 ^ 64" if "x \<in> set ds" for x
    proof -
      have "map_of (node_map w2) x \<noteq> None" using kd that by (simp add: list_all_iff)
      then have "map_of (node_map w2) x = Some (id_of w2 x)" by (auto simp: id_of_def)
      then have "id_of w2 x < current_node_id w2" by (rule wf_id_range [OF C(1)])
      also have "\<dots> < 2 ^ 32" by (rule L(6))
      also have "(2::nat) ^ 32 < 2 ^ 64" by simp
      finally show ?thesis .
    qed
    then have e64: "list_all (\<lambda>x. x < 2 ^ 64) ?ids" by (simp add: list_all_iff)
    have l64: "length ?ids < 2 ^ 64" using len by simp
    show ?thesis
      by (rule get_neighbors_block [OF z srt mem _ c32 e64 l64]) (simp add: mm b)
  qed
  have ir: "slice (outfile w)
           (le_value (slice (outfile w) (length (outfile w) - 8) (length (outfile w))))
           (length (outfile w) - 8) = index_bytes (rindex r)"
    unfolding ri by (rule index_region [OF assms(1)])
  show ?thesis
    apply (rule exI [of _ "id_of w2 t"], rule exI [of _ off], rule exI [of _ r])
    apply (rule exI [of _ nwe], rule exI [of _ w2])
    using t m fp io f r fr b mm g ir by simp
qed


theorem last_record_wins_witness:
  "process_jsonl_dump zlib_stored example_dump writer_init = Inr example_store
   \<and> last_edges (concat example_dump) (str_of ''A'') = Some [str_of ''C'', str_of ''C'']
   \<and> zlib_roundtrip zlib_stored \<and> length [str_of ''C'', str_of ''C''] < (2::nat) ^ 64
   \<and> (\<exists>i off r nodes_with_edges w2. map_of (node_map example_store) (str_of ''A'') = Some i
     \<and> first_pass example_dump header_writer = Inr (nodes_with_edges, w2)
     \<and> map_of nodes_with_edges i = Some [2, 2]
     \<and> filter (\<lambda>e. fst e = i) (index example_store) = [(i, off)]
     \<and> reader_open (outfile example_store) (mapfile example_store) = Inr r
     \<and> slice (outfile example_store)
           (le_value (slice (outfile example_store) (length (outfile example_store) - 8)
              (length (outfile example_store))))
           (length (outfile example_store) - 8) = index_bytes (rindex r)
     \<and> filter (\<lambda>e. fst e = i) (rindex r) = [(i, off)]
     \<and> slice (outfile example_store) off (off + length (block_bytes zlib_stored [2, 2]))
         = block_bytes zlib_stored [2, 2]
     \<and> get_neighbors zlib_stored r i = Inr [2, 2])"
proof -
  have ids: "id_of example_store (str_of ''C'') = 2"
    by (simp add: id_of_def example_node_map str_of_def)
  have l: "length [str_of ''C'', str_of ''C''] < (2::nat) ^ 64" by simp
  have "\<exists>i off r nodes_with_edges w2. map_of (node_map example_store) (str_of ''A'') = Some i
     \<and> first_pass example_dump header_writer = Inr (nodes_with_edges, w2)
     \<and> map_of nodes_with_edges i = Some [2, 2]
     \<and> filter (\<lambda>e. fst e = i) (index example_store) = [(i, off)]
     \<and> reader_open (outfile example_store) (mapfile example_store) = Inr r
     \<and> slice (outfile example_store)
           (le_value (slice (outfile example_store) (length (outfile example_store) - 8)
              (length (outfile example_store))))
           (length (outfile example_store) - 8) = index_bytes (rindex r)
     \<and> filter (\<lambda>e. fst e = i) (rindex r) = [(i, off)]
     \<and> slice (outfile example_store) off (off + length (block_bytes zlib_stored [2, 2]))
         = block_bytes zlib_stored [2, 2]
     \<and> get_neighbors zlib_stored r i = Inr [2, 2]"
    using last_record_wins [OF example_store_ok example_last_edges] zlib_stored_roundtrip l
    by (simp add: ids)
  then show ?thesis using example_store_ok example_last_edges zlib_stored_roundtrip l
    by (intro conjI)
qed

section \<open>The sidecar read back\<close>

lemma is_digit_digit_char: "d < 10 \<Longrightarrow> is_digit (digit_char d)"
  by (simp add: is_digit_def digit_char_def)

lemma is_digit_props:
  assumes "is_digit c"
  shows "\<not> is_space c" and "c \<noteq> TAB" and "c \<noteq> LF" and "c \<noteq> CR"
    and "c \<noteq> 0x2D" and "c \<noteq> 0x2B" and "c \<noteq> 0x5F"
    and "\<not> ascii_space c" and "int_ascii c = Some c"
  using assms by (auto simp: is_digit_def is_space_def ascii_space_def int_ascii_def)

lemma str_nat_digits: "list_all is_digit (str_nat n) \<and> str_nat n \<noteq> []"
proof (induction n rule: str_nat.induct)
  case (1 n)
  show ?case
  proof (cases "n < 10")
    case True
    then show ?thesis by (subst (1 2) str_nat.simps) (simp add: is_digit_digit_char)
  next
    case False
    then show ?thesis using 1 by (subst (1 2) str_nat.simps) (simp add: is_digit_digit_char)
  qed
qed

lemma str_nat_length: "n < 10 ^ Suc k \<Longrightarrow> length (str_nat n) \<le> Suc k"
proof (induction k arbitrary: n)
  case 0
  then show ?case by (subst str_nat.simps) simp
next
  case (Suc k)
  show ?case
  proof (cases "n < 10")
    case True
    then show ?thesis by (subst str_nat.simps) simp
  next
    case False
    have "n div 10 < 10 ^ Suc k" using Suc.prems by (simp add: less_mult_imp_div_less)
    then have "length (str_nat (n div 10)) \<le> Suc k" by (rule Suc.IH)
    then show ?thesis using False by (subst str_nat.simps) simp
  qed
qed

lemma str_nat_length_u32: "n < 2 ^ 32 \<Longrightarrow> length (str_nat n) \<le> 4300"
proof -
  assume "n < 2 ^ 32"
  then have "n < 10 ^ Suc 9" by simp
  then have "length (str_nat n) \<le> Suc 9" by (rule str_nat_length)
  then show ?thesis by simp
qed

lemma digits_value_snoc:
  "digits_value acc (s @ [c]) = 10 * digits_value acc s + (c - 48)"
  by (induction s arbitrary: acc) simp_all

lemma digits_value_str_nat: "digits_value 0 (str_nat n) = n"
proof (induction n rule: str_nat.induct)
  case (1 n)
  show ?case
  proof (cases "n < 10")
    case True
    then show ?thesis by (subst str_nat.simps) (simp add: digit_char_def)
  next
    case False
    then have "digits_value 0 (str_nat (n div 10)) = n div 10" using 1 by simp
    then show ?thesis using False
      by (subst str_nat.simps) (simp add: digits_value_snoc digit_char_def)
  qed
qed

lemma underscores_ok_digits: "list_all is_digit s \<Longrightarrow> underscores_ok s"
proof (induction s rule: underscores_ok.induct)
  case 1
  show ?case by simp
next
  case (2 c)
  show ?case by simp
next
  case (3 c d cs)
  then show ?case using is_digit_props(7) [of c] by simp
qed

lemma dropWhile_hd: "xs \<noteq> [] \<Longrightarrow> \<not> P (hd xs) \<Longrightarrow> dropWhile P xs = xs"
  by (cases xs) simp_all

lemma strip_no_space:
  "s \<noteq> [] \<Longrightarrow> \<not> is_space (hd s) \<Longrightarrow> \<not> is_space (last s) \<Longrightarrow> strip s = s"
proof -
  assume a: "s \<noteq> []" "\<not> is_space (hd s)" "\<not> is_space (last s)"
  have 1: "dropWhile is_space s = s" using a(1,2) by (cases s) simp_all
  have "rev s \<noteq> []" "hd (rev s) = last s" using a(1) by (simp_all add: hd_rev)
  then have 2: "dropWhile is_space (rev s) = rev s" using a(3) by (simp add: dropWhile_hd)
  show ?thesis by (simp add: strip_def 1 2)
qed

lemma strip_line:
  assumes "s \<noteq> []" and "\<not> is_space (hd s)" and "\<not> is_space (last s)"
  shows "strip (s @ [LF]) = s"
proof -
  have 1: "dropWhile is_space (s @ [LF]) = s @ [LF]" using assms(1,2) by (cases s) simp_all
  have sp: "is_space LF" by (simp add: is_space_def)
  have "rev s \<noteq> []" "hd (rev s) = last s" using assms(1) by (simp_all add: hd_rev)
  then have 2: "dropWhile is_space (rev s) = rev s" using assms(3) by (simp add: dropWhile_hd)
  show ?thesis by (simp add: strip_def 1 2 sp)
qed

lemma those_int_ascii_digits: "list_all is_digit s \<Longrightarrow> those (map int_ascii s) = Some s"
  by (induction s) (simp_all add: is_digit_props(9))

lemma py_int_str_nat:
  assumes "n < 2 ^ 32"
  shows "py_int (str_nat n) = Some (int n)"
proof -
  note D = str_nat_digits [of n]
  have ne: "str_nat n \<noteq> []" using D by simp
  have h: "is_digit (hd (str_nat n))" and l: "is_digit (last (str_nat n))"
    using D ne by (auto simp: list_all_iff)
  have a: "those (map int_ascii (str_nat n)) = Some (str_nat n)"
    using D by (simp add: those_int_ascii_digits)
  have 1: "dropWhile ascii_space (str_nat n) = str_nat n"
    using ne is_digit_props(8) [OF h] by (simp add: dropWhile_hd)
  have "rev (str_nat n) \<noteq> []" "hd (rev (str_nat n)) = last (str_nat n)"
    using ne by (simp_all add: hd_rev)
  then have 2: "dropWhile ascii_space (rev (str_nat n)) = rev (str_nat n)"
    using is_digit_props(8) [OF l] by (simp add: dropWhile_hd)
  have f: "filter is_digit (str_nat n) = str_nat n" using D by (simp add: list_all_iff)
  have v: "valid_digits (str_nat n)"
    using D h l underscores_ok_digits [of "str_nat n"] str_nat_length_u32 [OF assms]
    by (auto simp: valid_digits_def list_all_iff f)
  show ?thesis
    using is_digit_props(5,6) [OF h] ne v
    by (simp add: py_int_def a 1 2 Let_def f digits_value_str_nat)
qed

lemma split_tab_no_tab: "TAB \<notin> set b \<Longrightarrow> split_tab cur b = [cur @ b]"
  by (induction b arbitrary: cur) auto

lemma split_tab_at_tab:
  "TAB \<notin> set a \<Longrightarrow> split_tab cur (a @ TAB # b) = (cur @ a) # split_tab [] b"
  by (induction a arbitrary: cur) auto

lemma py_lines_line:
  "LF \<notin> set body \<Longrightarrow> CR \<notin> set body \<Longrightarrow>
     py_lines cur (body @ LF # rest) = (cur @ body @ [LF]) # py_lines [] rest"
  by (induction body arbitrary: cur) auto

lemma load_line_sidecar:
  assumes "clean_title t" and "i < 2 ^ 32"
  shows "load_line (sidecar_line (t, i)) b = bidict_setitem b (int i) t"
proof -
  let ?body = "str_nat i @ TAB # t"
  note D = str_nat_digits [of i]
  have tne: "t \<noteq> []" and tl: "\<not> is_space (last t)" and tt: "TAB \<notin> set t"
    using assms by (auto simp: clean_title_def list_all_iff)
  have h: "is_digit (hd (str_nat i))" using D by (auto simp: list_all_iff)
  have bh: "\<not> is_space (hd ?body)" using D is_digit_props(1) [OF h] by simp
  have bl: "\<not> is_space (last ?body)" using tne tl by simp
  have "sidecar_line (t, i) = ?body @ [LF]" by (simp add: sidecar_line_def)
  then have s: "strip (sidecar_line (t, i)) = ?body"
    using strip_line [of ?body] bh bl by simp
  have nt: "TAB \<notin> set (str_nat i)" using D is_digit_props(2) by (auto simp: list_all_iff)
  have sp: "split_tab [] ?body = [str_nat i, t]"
    using split_tab_at_tab [OF nt, of "[]" t] split_tab_no_tab [OF tt, of "[]"] by simp
  show ?thesis by (simp add: load_line_def s sp py_int_str_nat [OF assms(2)])
qed

lemma py_lines_sidecar:
  "list_all (\<lambda>e. clean_title (fst e)) nm \<Longrightarrow>
     py_lines [] (concat (map sidecar_line nm)) = map sidecar_line nm"
proof (induction nm)
  case Nil
  show ?case by simp
next
  case (Cons e nm)
  obtain t i where e: "e = (t, i)" by (cases e)
  let ?body = "str_nat i @ TAB # t"
  note D = str_nat_digits [of i]
  have ct: "clean_title t" using Cons.prems e by simp
  have "LF \<notin> set (str_nat i)" "CR \<notin> set (str_nat i)"
    using D is_digit_props(3,4) by (auto simp: list_all_iff)
  moreover have "LF \<notin> set t" "CR \<notin> set t" using ct by (auto simp: clean_title_def list_all_iff)
  ultimately have n: "LF \<notin> set ?body" "CR \<notin> set ?body" by simp_all
  have sl: "sidecar_line (t, i) = ?body @ [LF]" by (simp add: sidecar_line_def)
  have ih: "py_lines [] (concat (map sidecar_line nm)) = map sidecar_line nm"
    using Cons by simp
  have "concat (map sidecar_line (e # nm)) = ?body @ LF # concat (map sidecar_line nm)"
    by (simp add: e sl)
  then have "py_lines [] (concat (map sidecar_line (e # nm)))
      = ([] @ ?body @ [LF]) # py_lines [] (concat (map sidecar_line nm))"
    using py_lines_line [OF n, of "[]" "concat (map sidecar_line nm)"] by simp
  then show ?case by (simp add: e sl ih)
qed

lemma fold_load_line:
  "list_all (\<lambda>e. clean_title (fst e) \<and> snd e < 2 ^ 32) nm \<Longrightarrow>
     fold load_line (map sidecar_line nm) b
       = fold (\<lambda>e b. bidict_setitem b (int (snd e)) (fst e)) nm b"
proof (induction nm arbitrary: b)
  case Nil
  show ?case by simp
next
  case (Cons e nm)
  obtain t i where e: "e = (t, i)" by (cases e)
  have "clean_title t" and "i < 2 ^ 32" using Cons.prems e by simp_all
  then have "load_line (sidecar_line (t, i)) b = bidict_setitem b (int i) t"
    by (rule load_line_sidecar)
  then show ?case using Cons by (simp add: e)
qed

lemma fold_setitem_other:
  "fold (\<lambda>e b. bidict_setitem b (int (snd e)) (fst e)) nm b = b' \<Longrightarrow>
     (i \<notin> snd ` set nm \<longrightarrow> forward b' (int i) = forward b (int i))
     \<and> (t \<notin> fst ` set nm \<longrightarrow> backward b' t = backward b t)"
proof (induction nm arbitrary: b)
  case Nil
  then show ?case by simp
next
  case (Cons e nm)
  let ?b1 = "bidict_setitem b (int (snd e)) (fst e)"
  have f: "fold (\<lambda>e b. bidict_setitem b (int (snd e)) (fst e)) nm ?b1 = b'"
    using Cons.prems by simp
  show ?case using Cons.IH [OF f] by (auto simp: bidict_setitem_def)
qed

lemma fold_setitem_lookup:
  "distinct (map fst nm) \<Longrightarrow> distinct (map snd nm) \<Longrightarrow> (t, i) \<in> set nm \<Longrightarrow>
     forward (fold (\<lambda>e b. bidict_setitem b (int (snd e)) (fst e)) nm b) (int i) = Some t
     \<and> backward (fold (\<lambda>e b. bidict_setitem b (int (snd e)) (fst e)) nm b) t = Some (int i)"
proof (induction nm arbitrary: b)
  case Nil
  then show ?case by simp
next
  case (Cons e nm)
  let ?b1 = "bidict_setitem b (int (snd e)) (fst e)"
  show ?case
  proof (cases "e = (t, i)")
    case True
    have "i \<notin> snd ` set nm" "t \<notin> fst ` set nm" using Cons.prems(1,2) True by auto
    then show ?thesis
      using fold_setitem_other [OF refl, of i nm ?b1 t] True
      by (simp add: bidict_setitem_def)
  next
    case False
    then have "(t, i) \<in> set nm" using Cons.prems(3) by simp
    then show ?thesis using Cons.IH [of ?b1] Cons.prems(1,2) by simp
  qed
qed

lemma intern_clean:
  "list_all clean_title (map fst (node_map w)) \<Longrightarrow> clean_title t
   \<Longrightarrow> intern t w = Inr (i, w') \<Longrightarrow> list_all clean_title (map fst (node_map w'))"
  by (auto simp: intern_def split: option.splits if_splits)

lemma collect_edges_clean:
  "list_all clean_title (map fst (node_map w)) \<Longrightarrow> list_all clean_title ts
   \<Longrightarrow> collect_edges ts acc w = Inr (es, w')
   \<Longrightarrow> list_all clean_title (map fst (node_map w'))"
proof (induction ts arbitrary: acc w)
  case Nil
  then show ?case by simp
next
  case (Cons t ts)
  obtain i w1 where iw: "intern t w = Inr (i, w1)"
    and ce: "collect_edges ts (acc @ [i]) w1 = Inr (es, w')"
    using Cons.prems(3) by (auto split: sum.splits)
  have "list_all clean_title (map fst (node_map w1))"
    using intern_clean [OF Cons.prems(1) _ iw] Cons.prems(2) by simp
  then show ?case using Cons.IH [OF _ _ ce] Cons.prems(2) by simp
qed

lemma process_item_clean:
  assumes "list_all clean_title (map fst (node_map w))" and "clean_record (t, ts)"
    and "process_item (t, ts) (nwe, w) = Inr (nwe', w')"
  shows "list_all clean_title (map fst (node_map w'))"
proof -
  obtain i w1 es where iw: "intern t w = Inr (i, w1)"
    and ce: "collect_edges ts [] w1 = Inr (es, w')"
    using process_item_Inr [OF assms(3)] by blast
  have c: "clean_title t" "list_all clean_title ts"
    using assms(2) by (simp_all add: clean_record_def)
  have "list_all clean_title (map fst (node_map w1))"
    by (rule intern_clean [OF assms(1) c(1) iw])
  then show ?thesis by (rule collect_edges_clean [OF _ c(2) ce])
qed

lemma for_each_process_item_clean:
  "list_all clean_title (map fst (node_map w)) \<Longrightarrow> list_all clean_record items
   \<Longrightarrow> for_each process_item items (nwe, w) = Inr (nwe', w')
   \<Longrightarrow> list_all clean_title (map fst (node_map w'))"
proof (induction items arbitrary: nwe w)
  case Nil
  then show ?case by simp
next
  case (Cons a items)
  obtain t ts where a: "a = (t, ts)" by (cases a)
  obtain n1 w1 where p: "process_item (t, ts) (nwe, w) = Inr (n1, w1)"
    and f: "for_each process_item items (n1, w1) = Inr (nwe', w')"
    using Cons.prems(3) by (auto simp: a split: sum.splits)
  have "clean_record (t, ts)" using Cons.prems(2) a by simp
  then have "list_all clean_title (map fst (node_map w1))"
    by (rule process_item_clean [OF Cons.prems(1) _ p])
  then show ?case using Cons.IH [OF _ _ f] Cons.prems(2) by simp
qed

lemma first_pass_clean:
  assumes "list_all clean_record (concat S)"
    and "first_pass S header_writer = Inr (nwe, w2)"
  shows "list_all clean_title (map fst (node_map w2))"
proof -
  have f: "for_each process_item (concat S) ([], header_writer) = Inr (nwe, w2)"
    using assms(2) by (simp add: first_pass_fold)
  show ?thesis
    by (rule for_each_process_item_clean [OF _ assms(1) f])
      (simp add: header_writer_def writer_init_def)
qed

lemma reader_open_title_map: "reader_open f m = Inr r \<Longrightarrow> title_map r = load_title_map m"
  by (auto simp: reader_open_def split: if_splits sum.splits prod.splits)

lemma produced_store_opens:
  assumes d: "process_jsonl_dump z S writer_init = Inr w"
  shows "\<exists>r. reader_open (outfile w) (mapfile w) = Inr r"
proof -
  obtain nwe w2 where fp: "first_pass S header_writer = Inr (nwe, w2)"
    using process_jsonl_dump_first_pass [OF d] by blast
  note L = process_jsonl_dump_layout [OF d fp]
  have m: "slice (outfile w) 0 8 = MAGIC" by (simp add: L(1) slice_def length_MAGIC)
  have l: "16 \<le> length (outfile w)" by (simp add: L(1) length_MAGIC)
  show ?thesis by (simp add: reader_open_ok [OF m l])
qed

text \<open>
  A title with a lone surrogate stops the writer: its line of the sidecar cannot be encoded.
\<close>

lemma surrogate_title_raises:
  "convert_wiki_jsonl zlib_stored [[([0xD800], [])]] = Inl UnicodeEncodeError"
  by (simp add: writer_eval_simps eval_simps Let_def)

text \<open>
  Claim C8 (title round trip through the sidecar), as the code has it. The titles are any
  \<open>str\<close>, of any code points. Let every title of the dump be non-empty, free of tab, line
  feed and carriage return, and not end in a whitespace character of \<open>str.isspace\<close>, and
  let the writer finish. Then the reader opens the two files, the ids of the interned titles
  are \<open>0, ..., N - 1\<close> for the writer's final counter \<open>N\<close>, and for every interned title
  \<open>t\<close> with id \<open>i\<close> the reader's \<open>get_title\<close> of \<open>i\<close> is \<open>t\<close>, character for character,
  and its title map gives \<open>i\<close> for \<open>t\<close>.
\<close>

theorem title_roundtrip:
  assumes "process_jsonl_dump z S writer_init = Inr w"
    and "list_all clean_record (concat S)"
  shows "\<exists>r. reader_open (outfile w) (mapfile w) = Inr r
     \<and> map snd (node_map w) = [0..<current_node_id w]
     \<and> list_all (\<lambda>(t, i). get_title r i = Some t
                   \<and> bidict_get_str (title_map r) t = Some (int i)) (node_map w)"
proof -
  obtain nwe w2 where fp: "first_pass S header_writer = Inr (nwe, w2)"
    using process_jsonl_dump_first_pass [OF assms(1)] by blast
  note L = process_jsonl_dump_layout [OF assms(1) fp]
  note C = first_pass_collected [OF fp]
  have wf: "map snd (node_map w) = [0..<current_node_id w]"
    "distinct (map fst (node_map w))" "mapfile w = concat (map sidecar_line (node_map w))"
    using C(1) L(3,4,5) by (simp_all add: wf_writer_def)
  have ds: "distinct (map snd (node_map w))" by (simp add: wf(1))
  have "list_all clean_title (map fst (node_map w))"
    using first_pass_clean [OF assms(2) fp] L(3) by simp
  then have cl: "list_all (\<lambda>e. clean_title (fst e)) (node_map w)" by (simp add: list_all_iff)
  have "i < 2 ^ 32" if "(t, i) \<in> set (node_map w)" for t i
  proof -
    have "i \<in> set (map snd (node_map w))" using that by force
    then have "i < current_node_id w" by (simp only: wf(1)) simp
    then show ?thesis using L(5,6) by simp
  qed
  then have cl32: "list_all (\<lambda>e. clean_title (fst e) \<and> snd e < 2 ^ 32) (node_map w)"
    using cl by (auto simp: list_all_iff)
  obtain r where r: "reader_open (outfile w) (mapfile w) = Inr r"
    using produced_store_opens [OF assms(1)] by blast
  let ?set = "\<lambda>e b. bidict_setitem b (int (snd e)) (fst e)"
  have tm: "title_map r = fold ?set (node_map w) bidict_empty"
    using reader_open_title_map [OF r]
    by (simp add: load_title_map_def wf(3) py_lines_sidecar [OF cl] fold_load_line [OF cl32])
  have "get_title r i = Some t \<and> bidict_get_str (title_map r) t = Some (int i)"
    if "(t, i) \<in> set (node_map w)" for t i
    using fold_setitem_lookup [OF wf(2) ds that, of bidict_empty]
    by (simp add: get_title_def bidict_get_int_def bidict_get_str_def tm)
  then have "list_all (\<lambda>(t, i). get_title r i = Some t
                   \<and> bidict_get_str (title_map r) t = Some (int i)) (node_map w)"
    by (auto simp: list_all_iff)
  then show ?thesis using r wf(1) by blast
qed

lemma example_clean: "list_all clean_record (concat example_dump)"
  by (simp add: example_dump_def clean_record_def clean_title_def is_space_def str_of_def)

theorem title_roundtrip_witness:
  "process_jsonl_dump zlib_stored example_dump writer_init = Inr example_store
   \<and> list_all clean_record (concat example_dump)
   \<and> (\<exists>r. reader_open (outfile example_store) (mapfile example_store) = Inr r
     \<and> map snd (node_map example_store) = [0..<current_node_id example_store]
     \<and> list_all (\<lambda>(t, i). get_title r i = Some t
                   \<and> bidict_get_str (title_map r) t = Some (int i)) (node_map example_store))"
  using example_store_ok example_clean title_roundtrip [OF example_store_ok example_clean]
  by (intro conjI)

text \<open>
  The claim as stated fails for titles without tab or newline: the title \<open>A\<close> followed by a
  space is read back as \<open>A\<close> and is not found under its own spelling, and so is \<open>A\<close>
  followed by the ideographic space U+3000; the line of the empty title is skipped; a title
  with a carriage return is cut at it.
\<close>

theorem title_counterexample:
  "get_title (projr (convert_and_open zlib_stored [[(str_of ''A '', [])]])) 0 = Some (str_of ''A'')
   \<and> bidict_get_str (title_map (projr (convert_and_open zlib_stored [[(str_of ''A '', [])]])))
        (str_of ''A '') = None
   \<and> get_title (projr (convert_and_open zlib_stored [[(str_of ''A'' @ [0x3000], [])]])) 0
       = Some (str_of ''A'')
   \<and> bidict_get_str
        (title_map (projr (convert_and_open zlib_stored [[(str_of ''A'' @ [0x3000], [])]])))
        (str_of ''A'' @ [0x3000]) = None
   \<and> get_title (projr (convert_and_open zlib_stored [[([], [])]])) 0 = None
   \<and> get_title (projr (convert_and_open zlib_stored [[(str_of ''A'' @ [CR] @ str_of ''B'', [])]])) 0
       = Some (str_of ''A'')"
  by (simp add: convert_and_open_def writer_eval_simps reader_open_def load_title_map_def
      eval_simps Let_def load_line_def strip_def is_space_def py_int_def int_ascii_def
      ascii_space_def valid_digits_def is_digit_def bidict_setitem_def bidict_empty_def
      get_title_def bidict_get_int_def bidict_get_str_def)

end

